theory Spec2Isabelle
  imports Main "HOL-Library.Sublist"
begin

section \<open>Strings, markers and Python's \<open>str.replace\<close>\<close>

text \<open>
  A Python \<open>str\<close> is modelled as a \<^typ>\<open>string\<close>. The script only inspects the ASCII
  characters \<open>{\<close>, \<open>}\<close>, \<open>_\<close>, the digits, the letters of \<open>TOKEN\<close> and the line feed,
  none of which occurs inside a multi-byte UTF-8 sequence, so matching and replacing on
  the encoded text agrees with matching and replacing on code points.
\<close>

definition digit_char :: "nat \<Rightarrow> char" where
  "digit_char d = ''0123456789'' ! d"

text \<open>\<open>str(n)\<close> for a non-negative integer: its decimal digits, most significant first.\<close>

function str_nat :: "nat \<Rightarrow> string" where
  "str_nat n = (if n < 10 then [digit_char n] else str_nat (n div 10) @ [digit_char (n mod 10)])"
  by pat_completeness auto
termination
  by (relation "measure id") auto

declare str_nat.simps [simp del]

text \<open>The marker \<open>f"__TOKEN_{idx}__"\<close>.\<close>

definition marker :: "nat \<Rightarrow> string" where
  "marker idx = ''__TOKEN_'' @ str_nat idx @ ''__''"

text \<open>
  \<open>text.replace(old, new)\<close>: the non-overlapping occurrences of \<open>old\<close> are replaced
  scanning from the left; with an empty \<open>old\<close>, \<open>new\<close> is inserted before every character
  and at the end.
\<close>

function replace_str :: "string \<Rightarrow> string \<Rightarrow> string \<Rightarrow> string" where
  "replace_str old new text =
     (if old = [] then
        (case text of [] \<Rightarrow> new | c # cs \<Rightarrow> new @ c # replace_str old new cs)
      else if text = [] then []
      else if prefix old text then new @ replace_str old new (drop (length old) text)
      else hd text # replace_str old new (tl text))"
  by pat_completeness auto
termination
  by (relation "measure (\<lambda>(old, new, text). length text)") auto

declare replace_str.simps [simp del]

section \<open>The placeholder pattern\<close>

definition newline :: char where
  "newline = CHR 0x0A"

text \<open>
  \<open>.*?\}\}\<close> at the start of a text: the lazy star tries the closing braces first and
  otherwise steps over one character that is not a line feed (the pattern is compiled
  without DOTALL). The result is the text matched.
\<close>

fun lazy_dots_close :: "string \<Rightarrow> string option" where
  "lazy_dots_close [] = None"
| "lazy_dots_close (c # cs) =
     (if prefix ''}}'' (c # cs) then Some ''}}''
      else if c = newline then None
      else map_option ((#) c) (lazy_dots_close cs))"

text \<open>The first alternative, \<open>\{\{.*?\}\}\<close>.\<close>

definition match_double :: "string \<Rightarrow> string option" where
  "match_double s =
     (if prefix ''{{'' s then map_option ((@) ''{{'') (lazy_dots_close (drop 2 s)) else None)"

definition not_brace :: "char \<Rightarrow> bool" where
  "not_brace c = (c \<noteq> CHR ''{'' \<and> c \<noteq> CHR ''}'')"

text \<open>
  The second alternative, \<open>\{[^\{\}]+\}\<close>. The greedy class takes the longest run of
  characters that are no braces; giving characters back cannot help, since the character
  after a shorter run is no brace either. So it matches exactly when the run is not empty
  and a closing brace follows it.
\<close>

definition match_single :: "string \<Rightarrow> string option" where
  "match_single s =
     (case s of
        [] \<Rightarrow> None
      | c # cs \<Rightarrow>
          if c = CHR ''{'' \<and> takeWhile not_brace cs \<noteq> [] \<and> prefix ''}'' (dropWhile not_brace cs)
          then Some (''{'' @ takeWhile not_brace cs @ ''}'')
          else None)"

text \<open>\<open>PLACEHOLDER_PATTERN.match\<close> at the start of a text: \<open>group(0)\<close> of the match.\<close>

definition PLACEHOLDER_PATTERN :: "string \<Rightarrow> string option" where
  "PLACEHOLDER_PATTERN s =
     (case match_double s of Some m \<Rightarrow> Some m | None \<Rightarrow> match_single s)"

section \<open>The placeholder guard\<close>

text \<open>
  The callback \<open>_replace\<close> of \<open>protect_placeholders\<close>: it appends the matched text to
  \<open>tokens\<close> and returns the marker numbered by the new last index.
\<close>

definition replace_match :: "string list \<Rightarrow> string \<Rightarrow> string list \<times> string" where
  "replace_match tokens m = (tokens @ [m], marker (length (tokens @ [m]) - 1))"

text \<open>
  \<open>PLACEHOLDER_PATTERN.sub(_replace, text)\<close> with the list \<open>tokens\<close> threaded through:
  at each position the pattern is tried; a match is replaced by what the callback
  returns and the scan goes on after the match, otherwise the character is copied.
  A match is never empty.
\<close>

function pattern_sub :: "string list \<Rightarrow> string \<Rightarrow> string \<times> string list" where
  "pattern_sub tokens [] = ([], tokens)"
| "pattern_sub tokens (c # cs) =
     (case PLACEHOLDER_PATTERN (c # cs) of
        Some m \<Rightarrow>
          let (tokens', repl) = replace_match tokens m;
              (safe, tokens'') = pattern_sub tokens' (drop (length m) (c # cs))
          in (repl @ safe, tokens'')
      | None \<Rightarrow>
          let (safe, tokens') = pattern_sub tokens cs in (c # safe, tokens'))"
  by pat_completeness auto
termination
proof (relation "measure (\<lambda>(tokens, s). length s)")
  fix tokens :: "string list" and c cs m x tokens' repl
  assume "PLACEHOLDER_PATTERN (c # cs) = Some m"
  then have "m \<noteq> []"
    by (auto simp: PLACEHOLDER_PATTERN_def match_double_def match_single_def
        split: option.splits if_splits)
  then show "((tokens', drop (length m) (c # cs)), tokens, c # cs)
      \<in> measure (\<lambda>(tokens, s). length s)"
    by simp
qed simp_all

definition protect_placeholders :: "string \<Rightarrow> string \<times> string list" where
  "protect_placeholders text = pattern_sub [] text"

text \<open>The loop of \<open>restore_placeholders\<close> over \<open>enumerate(tokens)\<close>, from index \<open>idx\<close> on.\<close>

fun restore_from :: "nat \<Rightarrow> string \<Rightarrow> string list \<Rightarrow> string" where
  "restore_from idx text [] = text"
| "restore_from idx text (token # tokens) =
     restore_from (Suc idx) (replace_str (marker idx) token text) tokens"

definition restore_placeholders :: "string \<Rightarrow> string list \<Rightarrow> string" where
  "restore_placeholders text tokens = restore_from 0 text tokens"

section \<open>JSON values\<close>

text \<open>
  What \<open>json.load\<close> returns: a \<open>dict\<close> (its items in insertion order, keys pairwise
  distinct), a \<open>list\<close>, a \<open>str\<close>, an \<open>int\<close>, a \<open>float\<close> (kept abstract as \<open>'f\<close>),
  a \<open>bool\<close> or \<open>None\<close>.
\<close>

datatype 'f json =
    JDict "(string \<times> 'f json) list"
  | JList "'f json list"
  | JStr string
  | JInt int
  | JFloat 'f
  | JBool bool
  | JNull

text \<open>\<open>d[k] = v\<close> on a dict kept as its item list: an existing key keeps its place.\<close>

fun dict_set :: "('k \<times> 'v) list \<Rightarrow> 'k \<Rightarrow> 'v \<Rightarrow> ('k \<times> 'v) list" where
  "dict_set [] k v = [(k, v)]"
| "dict_set ((k', v') # d) k v =
     (if k' = k then (k', v) # d else (k', v') # dict_set d k v)"

text \<open>A dict built by inserting pairs one after the other, as a dict comprehension does.\<close>

definition dict_of_items :: "('k \<times> 'v) list \<Rightarrow> ('k \<times> 'v) list" where
  "dict_of_items items = foldl (\<lambda>d (k, v). dict_set d k v) [] items"

text \<open>The values of a dict are values of Python only when the keys are distinct.\<close>

fun wf_json :: "'f json \<Rightarrow> bool" where
  "wf_json (JDict items) =
     (distinct (map fst items) \<and> list_all (\<lambda>v. wf_json v) (map snd items))"
| "wf_json (JList vs) = list_all (\<lambda>v. wf_json v) vs"
| "wf_json _ = True"

section \<open>The tree translator\<close>

text \<open>
  The injected translator: its attribute \<open>target\<close> and its method \<open>translate\<close>, which
  reads and changes the state \<open>'w\<close> of the service behind it and either returns a text
  (\<open>Inr\<close>) or raises an \<open>Exception\<close> (\<open>Inl\<close>, with \<open>str(exc)\<close>). What the clause
  \<open>except Exception\<close> does not catch (\<open>KeyboardInterrupt\<close>, \<open>SystemExit\<close>) and a result
  that is no \<open>str\<close> are outside the model.
\<close>

record 'w translator =
  target :: string
  translate :: "string \<Rightarrow> 'w \<Rightarrow> (string + string) \<times> 'w"

text \<open>
  The effects of the script, in the order they happen: a line printed, a call of
  \<open>translator.translate\<close> (logged with the source string \<open>value\<close> being processed and
  the argument passed), the source file opened and parsed, the output directory made,
  an output file (directory, name, content) opened and written.
\<close>

datatype 'f event =
    Print string
  | Call string string
  | ReadFile string
  | MakeDirs string
  | WriteFile string string "'f json"

text \<open>
  What a run of \<open>translate_value\<close> reads and changes: the dict \<open>cache\<close>, the state of the
  translation service, and the effects so far.
\<close>

record ('w, 'f) run_state =
  cache :: "string \<times> string \<rightharpoonup> string"
  world :: 'w
  trace :: "'f event list"

text \<open>The calls logged in a list of effects, and the files written in it.\<close>

fun calls :: "'f event list \<Rightarrow> (string \<times> string) list" where
  "calls [] = []"
| "calls (Call value arg # es) = (value, arg) # calls es"
| "calls (_ # es) = calls es"

fun written :: "'f event list \<Rightarrow> (string \<times> string) list" where
  "written [] = []"
| "written (WriteFile dir name content # es) = (dir, name) # written es"
| "written (_ # es) = written es"

text \<open>The line printed by the \<open>except\<close> branch.\<close>

definition warn_message :: "string \<Rightarrow> string \<Rightarrow> string \<Rightarrow> string" where
  "warn_message value tgt exc =
     ''[warn] Failed to translate '' @ [CHR 0x27] @ value @ [CHR 0x27] @ '' to '' @ tgt
       @ '': '' @ exc @ ''. Keeping original.''"

text \<open>The branch \<open>isinstance(value, str)\<close> of \<open>translate_value\<close>.\<close>

definition translate_str ::
  "string \<Rightarrow> 'w translator \<Rightarrow> ('w, 'f) run_state \<Rightarrow> string \<times> ('w, 'f) run_state" where
  "translate_str value translator st =
     (let key = (value, target translator) in
      case cache st key of
        Some hit \<Rightarrow> (hit, st)
      | None \<Rightarrow>
          let (safe_text, tokens) = protect_placeholders value;
              (res, w) = translate translator safe_text (world st);
              st1 = st\<lparr>world := w, trace := trace st @ [Call value safe_text]\<rparr>;
              (translated, st2) =
                (case res of
                   Inr t \<Rightarrow> (t, st1)
                 | Inl exc \<Rightarrow>
                     (safe_text,
                      st1\<lparr>trace := trace st1 @ [Print (warn_message value (target translator) exc)]\<rparr>));
              translated' = restore_placeholders translated tokens
          in (translated', st2\<lparr>cache := (cache st2)(key \<mapsto> translated')\<rparr>))"

text \<open>
  \<open>translate_value\<close>, with the two comprehensions as the loops \<open>translate_items\<close> (over
  \<open>value.items()\<close>) and \<open>translate_values\<close> (over the list), which run the recursive calls
  from left to right. The interpreter's limit on the depth of recursion is not modelled.
\<close>

fun translate_value ::
    "'f json \<Rightarrow> 'w translator \<Rightarrow> ('w, 'f) run_state \<Rightarrow> 'f json \<times> ('w, 'f) run_state"
  and translate_items ::
    "(string \<times> 'f json) list \<Rightarrow> 'w translator \<Rightarrow> ('w, 'f) run_state
      \<Rightarrow> (string \<times> 'f json) list \<times> ('w, 'f) run_state"
  and translate_values ::
    "'f json list \<Rightarrow> 'w translator \<Rightarrow> ('w, 'f) run_state
      \<Rightarrow> 'f json list \<times> ('w, 'f) run_state"
  where
  "translate_value (JDict items) translator st =
     (let (items', st') = translate_items items translator st
      in (JDict (dict_of_items items'), st'))"
| "translate_value (JList vs) translator st =
     (let (vs', st') = translate_values vs translator st in (JList vs', st'))"
| "translate_value (JStr value) translator st =
     (let (translated, st') = translate_str value translator st in (JStr translated, st'))"
| "translate_value (JInt n) translator st = (JInt n, st)"
| "translate_value (JFloat x) translator st = (JFloat x, st)"
| "translate_value (JBool b) translator st = (JBool b, st)"
| "translate_value JNull translator st = (JNull, st)"
| "translate_items [] translator st = ([], st)"
| "translate_items ((k, v) # items) translator st =
     (let (v', st1) = translate_value v translator st;
          (items', st2) = translate_items items translator st1
      in ((k, v') # items', st2))"
| "translate_values [] translator st = ([], st)"
| "translate_values (v # vs) translator st =
     (let (v', st1) = translate_value v translator st;
          (vs', st2) = translate_values vs translator st1
      in (v' # vs', st2))"

section \<open>The command line run\<close>

definition BUNDLED_LANGS :: "(string \<times> string) list" where
  "BUNDLED_LANGS =
     [(''pl'', ''pl''), (''de'', ''de''), (''fr'', ''fr''), (''it'', ''it''),
      (''nl'', ''nl''), (''ar'', ''ar''), (''ja'', ''ja''), (''ko'', ''ko'')]"

text \<open>What \<open>parse_args\<close> returns; \<open>langs\<close> is \<open>None\<close> when \<open>--langs\<close> is not given.\<close>

record args =
  source :: string
  output_dir :: string
  langs :: "string list option"

datatype error = ValueError string | KeyError string | EnvError string

text \<open>
  The world outside the script: what opening and parsing the source file gives, whether
  making the output directory and writing a file fail (\<open>EnvError\<close> stands for whatever
  the file system or the JSON parser raises), and the translation service reached by
  \<open>GoogleTranslator(source="en", target=lang_code).translate\<close>.
\<close>

record ('w, 'f) env =
  load_source :: "string \<Rightarrow> error + 'f json"
  make_dirs :: "string \<Rightarrow> error option"
  write_file :: "string \<Rightarrow> string \<Rightarrow> 'f json \<Rightarrow> error option"
  service :: "string \<Rightarrow> string \<Rightarrow> 'w \<Rightarrow> (string + string) \<times> 'w"

text \<open>\<open>sep.join(xs)\<close>.\<close>

fun join :: "string \<Rightarrow> string list \<Rightarrow> string" where
  "join sep [] = []"
| "join sep [x] = x"
| "join sep (x # y # ys) = x @ sep @ join sep (y # ys)"

text \<open>The comprehension \<open>{code: BUNDLED_LANGS[code] for code in args.langs}\<close>.\<close>

fun lang_dict :: "string list \<Rightarrow> (string \<times> string) list \<Rightarrow> error + (string \<times> string) list" where
  "lang_dict [] d = Inr d"
| "lang_dict (code # codes) d =
     (case map_of BUNDLED_LANGS code of
        None \<Rightarrow> Inl (KeyError code)
      | Some lang_code \<Rightarrow> lang_dict codes (dict_set d code lang_code))"

text \<open>The first block of \<open>main\<close>: the languages to translate into, or the error raised.\<close>

definition target_langs :: "string list option \<Rightarrow> error + (string \<times> string) list" where
  "target_langs ls =
     (case ls of
        None \<Rightarrow> Inr BUNDLED_LANGS
      | Some codes \<Rightarrow>
          if codes = [] then Inr BUNDLED_LANGS
          else
            let missing = filter (\<lambda>code. map_of BUNDLED_LANGS code = None) codes in
            if missing \<noteq> [] then Inl (ValueError (''Unsupported locale codes: '' @ join '', '' missing))
            else lang_dict codes [])"

text \<open>
  The loop of \<open>main\<close> over \<open>target_langs.items()\<close>. Each language starts with an empty
  cache and its own translator (constructing it is taken not to fail for a configured
  language code); an error while writing ends the run.
\<close>

fun translate_locales ::
  "('w, 'f) env \<Rightarrow> args \<Rightarrow> 'f json \<Rightarrow> (string \<times> string) list \<Rightarrow> ('w, 'f) run_state
    \<Rightarrow> error option \<times> ('w, 'f) run_state" where
  "translate_locales e a source_data [] st = (None, st)"
| "translate_locales e a source_data ((locale, lang_code) # rest) st =
     (let st1 = st\<lparr>trace := trace st @ [Print (''Translating locale '' @ [CHR 0x27] @ locale @ [CHR 0x27] @ ''...'')],
                   cache := Map.empty\<rparr>;
          translator = \<lparr>target = lang_code, translate = service e lang_code\<rparr>;
          (translated, st2) = translate_value source_data translator st1;
          st3 = st2\<lparr>trace := trace st2 @ [WriteFile (output_dir a) (locale @ ''.json'') translated]\<rparr>
      in case write_file e (output_dir a) (locale @ ''.json'') translated of
           Some err \<Rightarrow> (Some err, st3)
         | None \<Rightarrow> translate_locales e a source_data rest st3)"

text \<open>
  \<open>main\<close>, from the parsed arguments and the state of the translation service: the
  exception that ends the run, if any, the state of the service and the effects.
\<close>

definition main :: "('w, 'f) env \<Rightarrow> args \<Rightarrow> 'w \<Rightarrow> error option \<times> 'w \<times> 'f event list" where
  "main e a w =
     (case target_langs (langs a) of
        Inl err \<Rightarrow> (Some err, w, [])
      | Inr selected \<Rightarrow>
          (case load_source e (source a) of
             Inl err \<Rightarrow> (Some err, w, [ReadFile (source a)])
           | Inr source_data \<Rightarrow>
               (case make_dirs e (output_dir a) of
                  Some err \<Rightarrow> (Some err, w, [ReadFile (source a), MakeDirs (output_dir a)])
                | None \<Rightarrow>
                    (case translate_locales e a source_data selected
                         \<lparr>cache = Map.empty, world = w,
                          trace = [ReadFile (source a), MakeDirs (output_dir a)]\<rparr> of
                       (Some err, st) \<Rightarrow> (Some err, world st, trace st)
                     | (None, st) \<Rightarrow>
                         (None, world st, trace st @ [Print ''Translation complete.''])))))"

section \<open>Vocabulary of the properties\<close>

text \<open>\<open>PLACEHOLDER_PATTERN.search(s)\<close> finds a match: the pattern matches at some position.\<close>

fun pattern_search :: "string \<Rightarrow> bool" where
  "pattern_search [] = False"
| "pattern_search (c # cs) = (PLACEHOLDER_PATTERN (c # cs) \<noteq> None \<or> pattern_search cs)"

text \<open>
  The texts the regular expression describes: \<open>{{\<close>, any characters but line feeds,
  \<open>}}\<close>; or \<open>{\<close>, one or more characters that are no braces, \<open>}\<close>.
\<close>

definition is_double :: "string \<Rightarrow> bool" where
  "is_double u =
     (4 \<le> length u \<and> take 2 u = ''{{'' \<and> drop (length u - 2) u = ''}}''
      \<and> newline \<notin> set (drop 2 (take (length u - 2) u)))"

definition is_single :: "string \<Rightarrow> bool" where
  "is_single u =
     (3 \<le> length u \<and> take 1 u = ''{'' \<and> drop (length u - 1) u = ''}''
      \<and> list_all not_brace (drop 1 (take (length u - 1) u)))"

definition is_placeholder :: "string \<Rightarrow> bool" where
  "is_placeholder u = (is_double u \<or> is_single u)"

text \<open>
  A text cut at its placeholders: literal pieces, each followed by a placeholder, and a
  last literal piece. \<open>plain\<close> is the text itself, \<open>weave k\<close> the text with the placeholders
  replaced by the markers numbered from \<open>k\<close> on.
\<close>

fun plain :: "(string \<times> string) list \<Rightarrow> string \<Rightarrow> string" where
  "plain [] fin = fin"
| "plain ((l, t) # segs) fin = l @ t @ plain segs fin"

fun weave :: "nat \<Rightarrow> (string \<times> string) list \<Rightarrow> string \<Rightarrow> string" where
  "weave k [] fin = fin"
| "weave k ((l, t) # segs) fin = l @ marker k @ weave (Suc k) segs fin"

text \<open>
  A text is free of numbered stems when it nowhere contains \<open>TOKEN_\<close> followed by a
  decimal digit, the part of a marker that tells it from other text.
\<close>

definition stem_free :: "string \<Rightarrow> bool" where
  "stem_free s = list_all (\<lambda>d. \<not> sublist (''TOKEN_'' @ [d]) s) ''0123456789''"

text \<open>No literal piece of a cut text contains a numbered stem.\<close>

definition literals_free :: "(string \<times> string) list \<Rightarrow> string \<Rightarrow> bool" where
  "literals_free segs fin = (list_all stem_free (map fst segs) \<and> stem_free fin)"

text \<open>
  Two values have the same shape: dicts with the same keys in the same order, lists of
  the same length, strings in the same places, and equal numbers, booleans and nulls.
\<close>

fun same_shape :: "'f json \<Rightarrow> 'f json \<Rightarrow> bool"
  and same_shape_items :: "(string \<times> 'f json) list \<Rightarrow> (string \<times> 'f json) list \<Rightarrow> bool"
  and same_shape_values :: "'f json list \<Rightarrow> 'f json list \<Rightarrow> bool"
  where
  "same_shape (JDict a) (JDict b) = same_shape_items a b"
| "same_shape (JList a) (JList b) = same_shape_values a b"
| "same_shape (JStr s) (JStr t) = True"
| "same_shape (JInt m) (JInt n) = (m = n)"
| "same_shape (JFloat x) (JFloat y) = (x = y)"
| "same_shape (JBool p) (JBool q) = (p = q)"
| "same_shape JNull JNull = True"
| "same_shape _ _ = False"
| "same_shape_items [] [] = True"
| "same_shape_items ((k, v) # a) ((k', v') # b) = (k = k' \<and> same_shape v v' \<and> same_shape_items a b)"
| "same_shape_items _ _ = False"
| "same_shape_values [] [] = True"
| "same_shape_values (v # a) (v' # b) = (same_shape v v' \<and> same_shape_values a b)"
| "same_shape_values _ _ = False"

text \<open>A value with every string leaf \<open>s\<close> replaced by \<open>f s\<close>, and the set of its string leaves.\<close>

fun map_strings :: "(string \<Rightarrow> string) \<Rightarrow> 'f json \<Rightarrow> 'f json" where
  "map_strings f (JDict items) = JDict (map (\<lambda>(k, v). (k, map_strings f v)) items)"
| "map_strings f (JList vs) = JList (map (map_strings f) vs)"
| "map_strings f (JStr s) = JStr (f s)"
| "map_strings f (JInt n) = JInt n"
| "map_strings f (JFloat x) = JFloat x"
| "map_strings f (JBool b) = JBool b"
| "map_strings f JNull = JNull"

fun strings :: "'f json \<Rightarrow> string set" where
  "strings (JDict items) = (\<Union>v \<in> set (map snd items). strings v)"
| "strings (JList vs) = (\<Union>v \<in> set vs. strings v)"
| "strings (JStr s) = {s}"
| "strings (JInt n) = {}"
| "strings (JFloat x) = {}"
| "strings (JBool b) = {}"
| "strings JNull = {}"

text \<open>What the cache holds for a string and the translator's language (the string itself if nothing).\<close>

definition cached :: "('w, 'f) run_state \<Rightarrow> 'w translator \<Rightarrow> string \<Rightarrow> string" where
  "cached st translator s = (case cache st (s, target translator) of Some r \<Rightarrow> r | None \<Rightarrow> s)"

text \<open>The effects added between two states.\<close>

definition new_events :: "('w, 'f) run_state \<Rightarrow> ('w, 'f) run_state \<Rightarrow> 'f event list" where
  "new_events st st' = drop (length (trace st)) (trace st')"

text \<open>The state at the start of a run for one language: \<open>cache = {}\<close>, nothing done yet.\<close>

definition fresh :: "'w \<Rightarrow> ('w, 'f) run_state" where
  "fresh w = \<lparr>cache = Map.empty, world = w, trace = []\<rparr>"

text \<open>The effects a run of \<open>translate_value\<close> can have: calls of the translator and printed lines.\<close>

fun translation_event :: "'f event \<Rightarrow> bool" where
  "translation_event (Call value arg) = True"
| "translation_event (Print line) = True"
| "translation_event _ = False"

text \<open>
  How a later state of a run relates to an earlier one: the cache has only grown; the
  effects added are calls and printed lines; no source string was sent twice; and every
  call was made for a string that the earlier cache lacked and the later cache holds,
  with the guarded form of that string as the argument.
\<close>

definition extends :: "'w translator \<Rightarrow> ('w, 'f) run_state \<Rightarrow> ('w, 'f) run_state \<Rightarrow> bool" where
  "extends translator st st' =
     (cache st \<subseteq>\<^sub>m cache st' \<and>
      (\<exists>new. trace st' = trace st @ new \<and> list_all translation_event new \<and>
         distinct (map fst (calls new)) \<and>
         list_all (\<lambda>(value, arg). cache st (value, target translator) = None \<and>
                    cache st' (value, target translator) \<noteq> None \<and>
                    arg = fst (protect_placeholders value)) (calls new)))"

text \<open>
  The recursion of \<open>translate_value\<close> terminates on an input when the input lies in the
  accessible part of the relation between a call and the recursive calls it makes.
\<close>

definition terminates_on :: "'f json \<Rightarrow> 'w translator \<Rightarrow> ('w, 'f) run_state \<Rightarrow> bool" where
  "terminates_on value translator st =
     translate_value_translate_items_translate_values_dom (Inl (value, translator, st))"

text \<open>Translators for the examples: one that upper-cases ASCII letters, one that always raises.\<close>

definition upper_char :: "char \<Rightarrow> char" where
  "upper_char c =
     (if 97 \<le> (of_char c :: nat) \<and> (of_char c :: nat) \<le> 122 then char_of (of_char c - (32 :: nat)) else c)"

definition upper_translator :: "string \<Rightarrow> unit translator" where
  "upper_translator lang = \<lparr>target = lang, translate = (\<lambda>text w. (Inr (map upper_char text), w))\<rparr>"

definition failing_translator :: "string \<Rightarrow> unit translator" where
  "failing_translator lang = \<lparr>target = lang, translate = (\<lambda>text w. (Inl ''service unavailable'', w))\<rparr>"

text \<open>
  A world for the examples: the source file holds \<open>{"greeting": "Hello {{name}}", "count": 3}\<close>,
  the file system never fails, and the service upper-cases ASCII letters.
\<close>

definition example_env :: "(unit, unit) env" where
  "example_env =
     \<lparr>load_source = (\<lambda>path. Inr (JDict [(''greeting'', JStr ''Hello {{name}}''), (''count'', JInt 3)])),
      make_dirs = (\<lambda>dir. None),
      write_file = (\<lambda>dir name content. None),
      service = (\<lambda>lang_code text w. (Inr (map upper_char text), w))\<rparr>"

section \<open>Decimal numerals\<close>

lemma digit_char_digit: "d < 10 \<Longrightarrow> digit_char d \<in> set ''0123456789''"
  unfolding digit_char_def by (rule nth_mem) simp

lemma digit_char_inj: "d < 10 \<Longrightarrow> e < 10 \<Longrightarrow> digit_char d = digit_char e \<Longrightarrow> d = e"
  unfolding digit_char_def by (subst (asm) nth_eq_iff_index_eq) simp_all

lemma str_nat_digits: "set (str_nat n) \<subseteq> set ''0123456789''"
proof (induction n rule: str_nat.induct)
  case (1 n)
  show ?case
  proof (cases "n < 10")
    case True
    then show ?thesis using digit_char_digit[of n] by (subst str_nat.simps) simp
  next
    case False
    have "n mod 10 < 10" by simp
    from digit_char_digit[OF this] 1[OF False] False show ?thesis
      by (subst str_nat.simps) simp
  qed
qed

lemma str_nat_nonempty: "str_nat n \<noteq> []"
  by (subst str_nat.simps) simp

lemma str_nat_inj: "str_nat m = str_nat n \<Longrightarrow> m = n"
proof (induction m arbitrary: n rule: str_nat.induct)
  case (1 m)
  have len1: "\<And>k. (length (str_nat k) = 1) = (k < 10)"
    subgoal for k using str_nat_nonempty[of "k div 10"]
      by (subst str_nat.simps) (auto simp: Suc_length_conv)
    done
  show ?case
  proof (cases "m < 10")
    case True
    with 1(2) len1[of m] len1[of n] have n: "n < 10" by simp
    from 1(2) True n have "digit_char m = digit_char n"
      by (simp add: str_nat.simps[of m] str_nat.simps[of n])
    with True n show ?thesis by (rule digit_char_inj)
  next
    case False
    with 1(2) len1[of m] len1[of n] have n: "\<not> n < 10" by simp
    from 1(2) False n have e: "str_nat (m div 10) = str_nat (n div 10)"
      and d: "digit_char (m mod 10) = digit_char (n mod 10)"
      by (simp_all add: str_nat.simps[of m] str_nat.simps[of n])
    from 1(1)[OF False e] have "m div 10 = n div 10" .
    moreover from d have "m mod 10 = n mod 10" by (intro digit_char_inj) simp_all
    ultimately show ?thesis by (metis div_mult_mod_eq)
  qed
qed

section \<open>Occurrences and \<open>replace_str\<close>\<close>

lemma replace_str_absent:
  "old \<noteq> [] \<Longrightarrow> \<not> sublist old s \<Longrightarrow> replace_str old new s = s"
proof (induction s)
  case Nil
  then show ?case by (simp add: replace_str.simps)
next
  case (Cons c cs)
  from Cons.prems(2) have np: "\<not> prefix old (c # cs)"
    by (meson prefix_imp_sublist)
  from Cons.prems(2) have "\<not> sublist old cs"
    by (meson sublist_Cons_right)
  with Cons.IH Cons.prems(1) have "replace_str old new cs = cs" by simp
  with np Cons.prems(1) show ?case
    by (subst replace_str.simps) simp
qed

lemma prefix_append_short:
  "prefix xs (ys @ zs) \<Longrightarrow> length xs \<le> length ys \<Longrightarrow> prefix xs ys"
  by (auto simp: prefix_append)

lemma replace_str_first:
  assumes "old \<noteq> []" and "\<not> sublist old (a @ butlast old)"
  shows "replace_str old new (a @ old @ b) = a @ new @ replace_str old new b"
  using assms(2)
proof (induction a)
  case Nil
  from assms(1) show ?case by (subst replace_str.simps) simp
next
  case (Cons c a)
  have np: "\<not> prefix old ((c # a) @ old @ b)"
  proof
    assume p: "prefix old ((c # a) @ old @ b)"
    have "length old \<le> length ((c # a) @ butlast old)" by simp
    moreover have "(c # a) @ old @ b = ((c # a) @ butlast old) @ (last old # b)"
      using assms(1) by simp
    ultimately have "prefix old ((c # a) @ butlast old)"
      using p prefix_append_short by metis
    with Cons.prems show False by (meson prefix_imp_sublist)
  qed
  from Cons.prems have "\<not> sublist old (a @ butlast old)"
    by (metis append_Cons sublist_Cons_right)
  with Cons.IH have "replace_str old new (a @ old @ b) = a @ new @ replace_str old new b" .
  with np assms(1) show ?case
    by (subst replace_str.simps) simp
qed

lemma replace_str_join:
  "old \<noteq> [] \<Longrightarrow> \<forall>seg \<in> set (butlast segs). \<not> sublist old (seg @ butlast old) \<Longrightarrow>
   segs \<noteq> [] \<Longrightarrow> \<not> sublist old (last segs) \<Longrightarrow>
   replace_str old new (join old segs) = join new segs"
proof (induction old segs rule: join.induct)
  case (1 sep)
  then show ?case by simp
next
  case (2 sep x)
  then show ?case by (simp add: replace_str_absent)
next
  case (3 sep x y ys)
  then have "replace_str sep new (join sep (y # ys)) = join new (y # ys)" by simp
  moreover from 3 have "\<not> sublist sep (x @ butlast sep)" by simp
  ultimately show ?case using 3(2) by (simp add: replace_str_first)
qed

lemma replace_str_unique:
  assumes "old \<noteq> []" and "\<And>a' b'. a @ old @ b = a' @ old @ b' \<Longrightarrow> a' = a"
  shows "replace_str old new (a @ old @ b) = a @ new @ b"
proof -
  have "\<not> sublist old (a @ butlast old)"
  proof
    assume "sublist old (a @ butlast old)"
    then obtain p q where pq: "a @ butlast old = p @ old @ q" by (auto simp: sublist_def)
    have "a @ old @ b = (a @ butlast old) @ (last old # b)" using assms(1) by simp
    also have "\<dots> = p @ old @ (q @ last old # b)" using pq by simp
    finally have "p = a" using assms(2) by blast
    with pq have "length (butlast old) = length (old @ q)" by simp
    then have "length old - 1 = length old + length q" by simp
    moreover from assms(1) have "0 < length old" by simp
    ultimately show False by arith
  qed
  moreover have "\<not> sublist old b"
  proof
    assume "sublist old b"
    then obtain p q where "b = p @ old @ q" by (auto simp: sublist_def)
    then have "a @ old @ b = (a @ old @ p) @ old @ q" by simp
    then have "a @ old @ p = a" using assms(2) by blast
    with assms(1) show False by simp
  qed
  ultimately show ?thesis using assms(1) by (simp add: replace_str_first replace_str_absent)
qed

section \<open>Where a marker can occur in a woven text\<close>

lemma split_at_char:
  "a @ b = x @ c # w \<Longrightarrow>
   (\<exists>a'. a = x @ c # a' \<and> w = a' @ b) \<or> (\<exists>x'. x = a @ x' \<and> b = x' @ c # w)"
  by (auto simp: append_eq_append_conv2 append_eq_Cons_conv)

lemma split_after_absent:
  "c \<notin> set a \<Longrightarrow> a @ b = x @ c # w \<Longrightarrow> \<exists>x'. x = a @ x' \<and> b = x' @ c # w"
  by (auto dest!: split_at_char)

lemma same_terminated:
  "c \<notin> set d \<Longrightarrow> c \<notin> set d' \<Longrightarrow> d @ c # r = d' @ c # r' \<Longrightarrow> d = d' \<and> r = r'"
proof (induction d arbitrary: d')
  case Nil
  then show ?case by (cases d') auto
next
  case (Cons a d)
  then show ?case by (cases d') auto
qed

lemma str_nat_no_underscore: "CHR ''_'' \<notin> set (str_nat n)"
  using str_nat_digits[of n] by auto

lemma str_nat_no_T: "CHR ''T'' \<notin> set (str_nat n)"
  using str_nat_digits[of n] by auto

lemma hd_str_nat: "\<exists>c cs. str_nat n = c # cs \<and> c \<noteq> CHR ''_''"
  using str_nat_nonempty[of n] str_nat_no_underscore[of n] by (cases "str_nat n") auto

lemma hd_str_nat_digit:
  "\<exists>c cs. str_nat n = c # cs \<and> c \<noteq> CHR ''_'' \<and> c \<in> set ''0123456789''"
proof -
  obtain c cs where d: "str_nat n = c # cs" using str_nat_nonempty[of n] by (cases "str_nat n") auto
  with str_nat_digits[of n] have "c \<in> set ''0123456789''" by auto
  moreover from this have "c \<noteq> CHR ''_''" by auto
  ultimately show ?thesis using d by blast
qed

lemma stem_free_sublist: "stem_free s \<Longrightarrow> sublist u s \<Longrightarrow> stem_free u"
  unfolding stem_free_def list_all_iff by (meson sublist_order.order_trans)

lemma not_stem_free: "d \<in> set ''0123456789'' \<Longrightarrow> s = p @ ''TOKEN_'' @ d # q \<Longrightarrow> \<not> stem_free s"
proof -
  assume d: "d \<in> set ''0123456789''" and s: "s = p @ ''TOKEN_'' @ d # q"
  from s have "s = p @ (''TOKEN_'' @ [d]) @ q" by simp
  then have "sublist (''TOKEN_'' @ [d]) s" unfolding sublist_def by blast
  with d show ?thesis unfolding stem_free_def list_all_iff by blast
qed

text \<open>A literal piece that holds the \<open>T\<close> of an occurrence holds a numbered stem.\<close>

lemma stem_in_literal:
  assumes "l = x @ CHR ''T'' # a'"
    and "''OKEN_'' @ str_nat j @ ''__'' @ y = a' @ ''__TOKEN_'' @ r"
  shows "\<not> stem_free l"
proof -
  obtain c cs where d: "str_nat j = c # cs" "c \<noteq> CHR ''_''" "c \<in> set ''0123456789''"
    using hd_str_nat_digit by blast
  from assms(2) d(1,2) have "\<exists>u. a' = ''OKEN_'' @ c # u"
    by (auto simp: Cons_eq_append_conv)
  then obtain u where "a' = ''OKEN_'' @ c # u" by blast
  with assms(1) have "l = x @ ''TOKEN_'' @ c # u" by simp
  with d(3) show ?thesis by (rule not_stem_free)
qed

lemma stem_in_weave:
  "literals_free segs fin \<Longrightarrow>
   weave k segs fin = x @ ''TOKEN_'' @ str_nat j @ ''__'' @ y \<Longrightarrow>
   \<exists>pre l t post. segs = pre @ (l, t) # post \<and> j = k + length pre
      \<and> x = weave k pre l @ ''__'' \<and> y = weave (Suc j) post fin"
proof (induction segs arbitrary: k x)
  case Nil
  obtain c cs where d: "str_nat j = c # cs" "c \<in> set ''0123456789''"
    using hd_str_nat_digit by blast
  from Nil(2) d(1) have "fin = x @ ''TOKEN_'' @ c # (cs @ ''__'' @ y)" by simp
  with d(2) have "\<not> stem_free fin" by (rule not_stem_free)
  with Nil show ?case by (simp add: literals_free_def)
next
  case (Cons seg segs)
  obtain l t where seg: "seg = (l, t)" by (cases seg)
  let ?W = "weave (Suc k) segs fin"
  have free: "stem_free l" "literals_free segs fin"
    using Cons.prems(1) by (auto simp: literals_free_def seg)
  from Cons.prems(2)
  have eq: "l @ (''__TOKEN_'' @ str_nat k @ ''__'' @ ?W) = x @ CHR ''T'' # (''OKEN_'' @ str_nat j @ ''__'' @ y)"
    by (simp add: seg marker_def)
  from split_at_char[OF eq] show ?case
  proof (elim disjE exE conjE)
    fix a' assume "l = x @ CHR ''T'' # a'"
      and "''OKEN_'' @ str_nat j @ ''__'' @ y = a' @ ''__TOKEN_'' @ str_nat k @ ''__'' @ ?W"
    then have "\<not> stem_free l" by (rule stem_in_literal)
    with free show ?thesis by simp
  next
    fix x' assume x: "x = l @ x'"
      and e: "''__TOKEN_'' @ str_nat k @ ''__'' @ ?W = x' @ CHR ''T'' # ''OKEN_'' @ str_nat j @ ''__'' @ y"
    from e obtain x3 where x': "x' = ''__'' @ x3"
      and e3: "''TOKEN_'' @ str_nat k @ ''__'' @ ?W = x3 @ CHR ''T'' # ''OKEN_'' @ str_nat j @ ''__'' @ y"
      by (auto simp: Cons_eq_append_conv)
    show ?thesis
    proof (cases x3)
      case Nil
      with e3 have "str_nat k @ CHR ''_'' # (''_'' @ ?W) = str_nat j @ CHR ''_'' # (''_'' @ y)" by simp
      from same_terminated[OF str_nat_no_underscore str_nat_no_underscore this]
      have "str_nat k = str_nat j" "y = ?W" by auto
      then have "j = k" by (auto dest: str_nat_inj)
      with \<open>y = ?W\<close> x x' Nil seg show ?thesis
        by (intro exI[of _ "[]"] exI[of _ l] exI[of _ t] exI[of _ segs]) simp
    next
      case (Cons c x4)
      with e3 have c: "c = CHR ''T''"
        and e4: "(''OKEN_'' @ str_nat k @ ''__'') @ ?W = x4 @ CHR ''T'' # ''OKEN_'' @ str_nat j @ ''__'' @ y"
        by auto
      have "CHR ''T'' \<notin> set (''OKEN_'' @ str_nat k @ ''__'')"
        using str_nat_no_T[of k] by simp
      from split_after_absent[OF this e4] obtain x5
        where x4: "x4 = (''OKEN_'' @ str_nat k @ ''__'') @ x5"
          and e5: "?W = x5 @ ''TOKEN_'' @ str_nat j @ ''__'' @ y" by auto
      from Cons.IH[OF free(2) e5] obtain pre l' t' post
        where "segs = pre @ (l', t') # post" "j = Suc k + length pre"
          "x5 = weave (Suc k) pre l' @ ''__''" "y = weave (Suc j) post fin" by blast
      with x x' Cons c x4 seg show ?thesis
        by (intro exI[of _ "(l, t) # pre"] exI[of _ l'] exI[of _ t'] exI[of _ post])
          (simp add: marker_def)
    qed
  qed
qed

lemma marker_in_weave:
  assumes "literals_free segs fin" and "weave k segs fin = a @ marker j @ b"
  shows "\<exists>pre l t post. segs = pre @ (l, t) # post \<and> j = k + length pre
      \<and> a = weave k pre l \<and> b = weave (Suc j) post fin"
proof -
  from assms(2) have "weave k segs fin = (a @ ''__'') @ ''TOKEN_'' @ str_nat j @ ''__'' @ b"
    by (simp add: marker_def)
  from stem_in_weave[OF assms(1) this] show ?thesis by auto
qed

lemma replace_marker_weave:
  assumes "literals_free ((l, t) # segs) fin"
  shows "replace_str (marker k) new (weave k ((l, t) # segs) fin) = l @ new @ weave (Suc k) segs fin"
proof -
  have "replace_str (marker k) new (l @ marker k @ weave (Suc k) segs fin)
      = l @ new @ weave (Suc k) segs fin"
  proof (rule replace_str_unique)
    show "marker k \<noteq> []" by (simp add: marker_def)
  next
    fix a' b' assume "l @ marker k @ weave (Suc k) segs fin = a' @ marker k @ b'"
    then have "weave k ((l, t) # segs) fin = a' @ marker k @ b'" by simp
    from marker_in_weave[OF assms this] obtain pre l' t' post
      where "(l, t) # segs = pre @ (l', t') # post" "k = k + length pre" "a' = weave k pre l'"
      by blast
    then show "a' = l" by simp
  qed
  then show ?thesis by simp
qed

lemma literals_sublist: "stem_free (plain segs fin) \<Longrightarrow> literals_free segs fin"
proof (induction segs)
  case Nil
  then show ?case by (simp add: literals_free_def)
next
  case (Cons seg segs)
  obtain l t where seg: "seg = (l, t)" by (cases seg)
  have "sublist l (plain (seg # segs) fin)"
    unfolding seg plain.simps sublist_def by (metis append_Nil)
  with Cons.prems have "stem_free l" by (rule stem_free_sublist)
  moreover have "sublist (plain segs fin) (plain (seg # segs) fin)"
    unfolding seg plain.simps sublist_def by (metis append_Nil2 append_assoc)
  with Cons.prems have "stem_free (plain segs fin)" by (rule stem_free_sublist)
  from Cons.IH[OF this] have "literals_free segs fin" .
  ultimately show ?case by (simp add: literals_free_def seg)
qed

lemma restore_weave:
  "stem_free (p @ plain segs fin) \<Longrightarrow>
   restore_from k (p @ weave k segs fin) (map snd segs) = p @ plain segs fin"
proof (induction segs arbitrary: k p)
  case Nil
  then show ?case by simp
next
  case (Cons seg segs)
  obtain l t where seg: "seg = (l, t)" by (cases seg)
  from Cons.prems have whole: "stem_free (plain ((p @ l, t) # segs) fin)"
    by (simp add: seg)
  from literals_sublist[OF whole] have "literals_free ((p @ l, t) # segs) fin" .
  from replace_marker_weave[OF this, of k t]
  have "replace_str (marker k) t (p @ weave k (seg # segs) fin)
      = (p @ l @ t) @ weave (Suc k) segs fin"
    by (simp add: seg)
  moreover from Cons.prems have "stem_free ((p @ l @ t) @ plain segs fin)"
    by (simp add: seg)
  from Cons.IH[OF this] have "restore_from (Suc k) ((p @ l @ t) @ weave (Suc k) segs fin) (map snd segs)
      = (p @ l @ t) @ plain segs fin" .
  ultimately show ?case by (simp add: seg)
qed

section \<open>The pattern and the guard\<close>

lemma lazy_dots_close_prefix: "lazy_dots_close s = Some m \<Longrightarrow> prefix m s"
proof (induction s arbitrary: m)
  case Nil
  then show ?case by simp
next
  case (Cons c cs)
  then show ?case by (auto split: if_splits)
qed

lemma match_double_prefix: "match_double s = Some m \<Longrightarrow> prefix m s"
proof -
  assume a: "match_double s = Some m"
  then obtain r where r: "s = ''{{'' @ r" and "map_option ((@) ''{{'') (lazy_dots_close r) = Some m"
    by (auto simp: match_double_def prefix_def split: if_splits)
  then obtain m' where "lazy_dots_close r = Some m'" "m = ''{{'' @ m'" by auto
  with r lazy_dots_close_prefix[of r m'] show ?thesis by simp
qed

lemma match_single_prefix: "match_single s = Some m \<Longrightarrow> prefix m s"
proof -
  assume a: "match_single s = Some m"
  then obtain cs where s: "s = CHR ''{'' # cs" and b: "prefix ''}'' (dropWhile not_brace cs)"
    and m: "m = ''{'' @ takeWhile not_brace cs @ ''}''"
    by (auto simp: match_single_def split: list.splits if_splits)
  from b obtain r where "dropWhile not_brace cs = CHR ''}'' # r" by (auto simp: prefix_def)
  then have "cs = takeWhile not_brace cs @ CHR ''}'' # r"
    by (metis takeWhile_dropWhile_id)
  with s m show ?thesis by (metis append_Cons append_Nil append_assoc prefixI)
qed

lemma pattern_prefix:
  assumes "PLACEHOLDER_PATTERN s = Some m"
  shows "prefix m s \<and> m \<noteq> []"
proof -
  from assms have "match_double s = Some m \<or> match_single s = Some m"
    by (auto simp: PLACEHOLDER_PATTERN_def split: option.splits)
  then have "prefix m s" using match_double_prefix match_single_prefix by blast
  moreover from assms have "m \<noteq> []"
    by (auto simp: PLACEHOLDER_PATTERN_def match_double_def match_single_def
        split: option.splits if_splits list.splits)
  ultimately show ?thesis by simp
qed

lemma pattern_sub_weave:
  "\<exists>segs fin. pattern_sub tokens s = (weave (length tokens) segs fin, tokens @ map snd segs)
      \<and> s = plain segs fin"
proof (induction tokens s rule: pattern_sub.induct)
  case (1 tokens)
  show ?case by (rule exI[of _ "[]"], rule exI[of _ "[]"]) simp
next
  case (2 tokens c cs)
  show ?case
  proof (cases "PLACEHOLDER_PATTERN (c # cs)")
    case None
    from 2(1)[OF None] obtain segs fin
      where ih: "pattern_sub tokens cs = (weave (length tokens) segs fin, tokens @ map snd segs)"
        "cs = plain segs fin" by blast
    show ?thesis
    proof (cases segs)
      case Nil
      with ih None show ?thesis
        by (intro exI[of _ "[]"] exI[of _ "c # fin"]) simp
    next
      case (Cons seg segs')
      obtain l t where "seg = (l, t)" by (cases seg)
      with Cons ih None show ?thesis
        by (intro exI[of _ "(c # l, t) # segs'"] exI[of _ fin]) simp
    qed
  next
    case (Some m)
    from pattern_prefix[OF Some] have split: "c # cs = m @ drop (length m) (c # cs)"
      by (metis append_eq_conv_conj prefixE)
    have rm: "(tokens @ [m], marker (length tokens)) = replace_match tokens m"
      by (simp add: replace_match_def)
    from 2(2)[OF Some refl rm] obtain segs fin
      where ih: "pattern_sub (tokens @ [m]) (drop (length m) (c # cs))
          = (weave (Suc (length tokens)) segs fin, tokens @ m # map snd segs)"
        "drop (length m) (c # cs) = plain segs fin"
      by auto
    have "pattern_sub tokens (c # cs)
        = (weave (length tokens) (([], m) # segs) fin, tokens @ map snd (([], m) # segs))"
      using Some ih(1) by (simp add: replace_match_def)
    moreover have "c # cs = plain (([], m) # segs) fin"
      using split ih(2) by simp
    ultimately show ?thesis by blast
  qed
qed

lemma restore_protect:
  assumes "stem_free s"
  shows "restore_placeholders (fst (protect_placeholders s)) (snd (protect_placeholders s)) = s"
proof -
  obtain segs fin where "pattern_sub [] s = (weave 0 segs fin, map snd segs)" "s = plain segs fin"
    using pattern_sub_weave[of "[]" s] by auto
  with restore_weave[of "[]" segs fin 0] assms show ?thesis
    by (simp add: protect_placeholders_def restore_placeholders_def)
qed

lemma pattern_sub_no_match: "\<not> pattern_search s \<Longrightarrow> pattern_sub tokens s = (s, tokens)"
  by (induction s) auto

section \<open>The pattern matcher and the texts of the regular expression\<close>

lemma is_double_iff: "is_double u = (\<exists>x. u = ''{{'' @ x @ ''}}'' \<and> newline \<notin> set x)"
proof
  assume d: "is_double u"
  let ?x = "drop 2 (take (length u - 2) u)"
  from d have len: "4 \<le> length u" and a: "take 2 u = ''{{''"
    and b: "drop (length u - 2) u = ''}}''" and n: "newline \<notin> set ?x"
    by (simp_all add: is_double_def)
  have "u = take (length u - 2) u @ drop (length u - 2) u" by simp
  also have "take (length u - 2) u = take 2 (take (length u - 2) u) @ ?x"
    by (simp only: append_take_drop_id)
  also have "take 2 (take (length u - 2) u) = take 2 u"
  proof -
    from len have "min 2 (length u - 2) = 2" by arith
    then show ?thesis by (simp only: take_take)
  qed
  finally have "u = ''{{'' @ ?x @ ''}}''" using a b by simp
  with n show "\<exists>x. u = ''{{'' @ x @ ''}}'' \<and> newline \<notin> set x" by blast
next
  assume "\<exists>x. u = ''{{'' @ x @ ''}}'' \<and> newline \<notin> set x"
  then obtain x where "u = ''{{'' @ x @ ''}}''" "newline \<notin> set x" by blast
  then show "is_double u" by (simp add: is_double_def)
qed

lemma is_single_iff:
  "is_single u = (\<exists>y. u = ''{'' @ y @ ''}'' \<and> y \<noteq> [] \<and> list_all not_brace y)"
proof
  assume d: "is_single u"
  let ?y = "drop 1 (take (length u - 1) u)"
  from d have len: "3 \<le> length u" and a: "take 1 u = ''{''"
    and b: "drop (length u - 1) u = ''}''" and n: "list_all not_brace ?y"
    by (simp_all add: is_single_def)
  have "u = take (length u - 1) u @ drop (length u - 1) u" by simp
  also have "take (length u - 1) u = take 1 (take (length u - 1) u) @ ?y"
    by (simp only: append_take_drop_id)
  also have "take 1 (take (length u - 1) u) = take 1 u"
  proof -
    from len have "min 1 (length u - 1) = 1" by arith
    then show ?thesis by (simp only: take_take)
  qed
  finally have "u = ''{'' @ ?y @ ''}''" using a b by simp
  moreover have "?y \<noteq> []" using len by simp
  ultimately show "\<exists>y. u = ''{'' @ y @ ''}'' \<and> y \<noteq> [] \<and> list_all not_brace y" using n by blast
next
  assume "\<exists>y. u = ''{'' @ y @ ''}'' \<and> y \<noteq> [] \<and> list_all not_brace y"
  then obtain y where "u = ''{'' @ y @ ''}''" "y \<noteq> []" "list_all not_brace y" by blast
  then show "is_single u" by (cases y) (simp_all add: is_single_def)
qed

lemma lazy_dots_close_sound:
  "lazy_dots_close s = Some m \<Longrightarrow> \<exists>x. m = x @ ''}}'' \<and> newline \<notin> set x"
proof (induction s arbitrary: m)
  case Nil
  then show ?case by simp
next
  case (Cons c cs)
  show ?case
  proof (cases "prefix ''}}'' (c # cs)")
    case True
    with Cons.prems have "Some m = Some ''}}''" by (simp only: lazy_dots_close.simps if_True)
    then have "m = [] @ ''}}''" by simp
    then show ?thesis by (metis empty_iff empty_set)
  next
    case False
    with Cons.prems obtain m' where c: "c \<noteq> newline" and m': "lazy_dots_close cs = Some m'" "m = c # m'"
      by (auto split: if_splits)
    from Cons.IH[OF m'(1)] obtain x where "m' = x @ ''}}''" "newline \<notin> set x" by blast
    with c m'(2) have "m = (c # x) @ ''}}'' \<and> newline \<notin> set (c # x)" by simp
    then show ?thesis by blast
  qed
qed

lemma lazy_dots_close_complete:
  "newline \<notin> set x \<Longrightarrow> lazy_dots_close (x @ ''}}'' @ r) \<noteq> None"
  by (induction x) auto

lemma pattern_sound: "PLACEHOLDER_PATTERN s = Some m \<Longrightarrow> is_placeholder m"
proof -
  assume a: "PLACEHOLDER_PATTERN s = Some m"
  then consider "match_double s = Some m" | "match_single s = Some m"
    by (auto simp: PLACEHOLDER_PATTERN_def split: option.splits)
  then show ?thesis
  proof cases
    case 1
    then obtain m' where "lazy_dots_close (drop 2 s) = Some m'" "m = ''{{'' @ m'"
      by (auto simp: match_double_def split: if_splits)
    with lazy_dots_close_sound[of "drop 2 s" m'] have "is_double m"
      unfolding is_double_iff by auto
    then show ?thesis by (simp add: is_placeholder_def)
  next
    case 2
    then obtain cs where "takeWhile not_brace cs \<noteq> []" "m = ''{'' @ takeWhile not_brace cs @ ''}''"
      by (auto simp: match_single_def split: list.splits if_splits)
    moreover have "list_all not_brace (takeWhile not_brace cs)"
      by (simp add: list_all_iff) (meson set_takeWhileD)
    ultimately have "is_single m" unfolding is_single_iff by blast
    then show ?thesis by (simp add: is_placeholder_def)
  qed
qed

lemma pattern_complete:
  assumes "is_placeholder u"
  shows "PLACEHOLDER_PATTERN (u @ r) \<noteq> None"
proof -
  from assms consider "is_double u" | "is_single u" by (auto simp: is_placeholder_def)
  then show ?thesis
  proof cases
    case 1
    then obtain x where "u = ''{{'' @ x @ ''}}''" "newline \<notin> set x" unfolding is_double_iff by blast
    with lazy_dots_close_complete[of x r] have "match_double (u @ r) \<noteq> None"
      by (auto simp: match_double_def)
    then show ?thesis by (auto simp: PLACEHOLDER_PATTERN_def split: option.splits)
  next
    case 2
    then obtain y where y: "u = ''{'' @ y @ ''}''" "y \<noteq> []" "list_all not_brace y"
      unfolding is_single_iff by blast
    have "\<not> not_brace (CHR ''}'')" by (simp add: not_brace_def)
    with y(3) have "takeWhile not_brace (y @ CHR ''}'' # r) = y"
      and "dropWhile not_brace (y @ CHR ''}'' # r) = CHR ''}'' # r"
      by (simp_all add: list_all_iff takeWhile_append2 dropWhile_append2)
    with y(1,2) have "match_single (u @ r) \<noteq> None" by (simp add: match_single_def)
    then show ?thesis by (auto simp: PLACEHOLDER_PATTERN_def split: option.splits)
  qed
qed

lemma pattern_search_iff: "pattern_search S = (\<exists>u. sublist u S \<and> is_placeholder u)"
proof
  show "pattern_search S \<Longrightarrow> \<exists>u. sublist u S \<and> is_placeholder u"
  proof (induction S)
    case Nil
    then show ?case by simp
  next
    case (Cons c cs)
    show ?case
    proof (cases "PLACEHOLDER_PATTERN (c # cs)")
      case (Some m)
      from pattern_prefix[OF Some] have "sublist m (c # cs)" by (simp add: prefix_imp_sublist)
      with pattern_sound[OF Some] show ?thesis by blast
    next
      case None
      with Cons.prems have "pattern_search cs" by simp
      from Cons.IH[OF this] obtain u where "sublist u cs" "is_placeholder u" by blast
      then show ?thesis by (meson sublist_Cons_right)
    qed
  qed
next
  assume "\<exists>u. sublist u S \<and> is_placeholder u"
  then obtain u p r where u: "is_placeholder u" and S: "S = p @ u @ r"
    by (auto simp: sublist_def)
  have "pattern_search (p @ u @ r)"
  proof (induction p)
    case Nil
    from u have "u \<noteq> []" by (auto simp: is_placeholder_def is_double_def is_single_def)
    then obtain c cs where "u @ r = c # cs" by (cases u) auto
    with pattern_complete[OF u, of r] show ?case by simp
  next
    case (Cons c p)
    then show ?case by simp
  qed
  with S show "pattern_search S" by simp
qed

section \<open>Runs of the tree translator\<close>

lemma calls_append: "calls (xs @ ys) = calls xs @ calls ys"
  by (induction xs rule: calls.induct) simp_all

lemma written_append: "written (xs @ ys) = written xs @ written ys"
  by (induction xs rule: written.induct) simp_all

lemma written_translation_events: "list_all translation_event es \<Longrightarrow> written es = []"
  by (induction es rule: written.induct) simp_all

lemma extends_refl: "extends translator st st"
  by (simp add: extends_def)

lemma extends_trans:
  assumes "extends translator st st1" and "extends translator st1 st2"
  shows "extends translator st st2"
proof -
  let ?t = "target translator"
  from assms(1) obtain new1 where sub1: "cache st \<subseteq>\<^sub>m cache st1"
    and t1: "trace st1 = trace st @ new1" and e1: "list_all translation_event new1"
    and d1: "distinct (map fst (calls new1))"
    and c1: "list_all (\<lambda>(value, arg). cache st (value, ?t) = None \<and> cache st1 (value, ?t) \<noteq> None
                \<and> arg = fst (protect_placeholders value)) (calls new1)"
    unfolding extends_def by blast
  from assms(2) obtain new2 where sub2: "cache st1 \<subseteq>\<^sub>m cache st2"
    and t2: "trace st2 = trace st1 @ new2" and e2: "list_all translation_event new2"
    and d2: "distinct (map fst (calls new2))"
    and c2: "list_all (\<lambda>(value, arg). cache st1 (value, ?t) = None \<and> cache st2 (value, ?t) \<noteq> None
                \<and> arg = fst (protect_placeholders value)) (calls new2)"
    unfolding extends_def by blast
  have keep: "cache st2 k \<noteq> None" if "cache st1 k \<noteq> None" for k
    using that sub2 by (metis domIff map_le_def)
  have miss: "cache st k = None" if "cache st1 k = None" for k
    using that sub1 by (metis domIff map_le_def)
  have "cache st \<subseteq>\<^sub>m cache st2" using sub1 sub2 by (rule map_le_trans)
  moreover have "trace st2 = trace st @ (new1 @ new2)" using t1 t2 by simp
  moreover have "list_all translation_event (new1 @ new2)" using e1 e2 by simp
  moreover have "distinct (map fst (calls (new1 @ new2)))"
  proof -
    have "fst ` set (calls new1) \<inter> fst ` set (calls new2) = {}"
    proof (rule ccontr)
      assume "fst ` set (calls new1) \<inter> fst ` set (calls new2) \<noteq> {}"
      then obtain v a b where "(v, a) \<in> set (calls new1)" "(v, b) \<in> set (calls new2)" by auto
      with c1 c2 have "cache st1 (v, ?t) \<noteq> None" "cache st1 (v, ?t) = None"
        by (auto simp: list_all_iff)
      then show False by simp
    qed
    with d1 d2 show ?thesis by (simp add: calls_append)
  qed
  moreover have "list_all (\<lambda>(value, arg). cache st (value, ?t) = None \<and> cache st2 (value, ?t) \<noteq> None
                \<and> arg = fst (protect_placeholders value)) (calls (new1 @ new2))"
    using c1 c2 keep miss by (auto simp: calls_append list_all_iff)
  ultimately show ?thesis unfolding extends_def by blast
qed

lemma translate_str_hit:
  "cache st (value, target translator) = Some hit \<Longrightarrow> translate_str value translator st = (hit, st)"
  by (simp add: translate_str_def)

lemma translate_str_miss:
  assumes "cache st (value, target translator) = None"
    and "translate translator (fst (protect_placeholders value)) (world st) = (res, w)"
  shows "translate_str value translator st =
     (restore_placeholders (case res of Inr t \<Rightarrow> t | Inl exc \<Rightarrow> fst (protect_placeholders value))
        (snd (protect_placeholders value)),
      st\<lparr>world := w,
         trace := trace st @ Call value (fst (protect_placeholders value))
           # (case res of Inr t \<Rightarrow> [] | Inl exc \<Rightarrow> [Print (warn_message value (target translator) exc)]),
         cache := (cache st)((value, target translator) \<mapsto>
           restore_placeholders (case res of Inr t \<Rightarrow> t | Inl exc \<Rightarrow> fst (protect_placeholders value))
             (snd (protect_placeholders value)))\<rparr>)"
  using assms
  by (cases res) (simp_all add: translate_str_def case_prod_beta Let_def)

lemma translate_str_extends:
  assumes "translate_str value translator st = (r, st')"
  shows "extends translator st st' \<and> cache st' (value, target translator) = Some r"
proof (cases "cache st (value, target translator)")
  case (Some hit)
  with assms show ?thesis by (simp add: translate_str_hit extends_refl)
next
  case None
  obtain res w where tr: "translate translator (fst (protect_placeholders value)) (world st) = (res, w)"
    by (cases "translate translator (fst (protect_placeholders value)) (world st)")
  let ?r = "restore_placeholders (case res of Inr t \<Rightarrow> t | Inl exc \<Rightarrow> fst (protect_placeholders value))
        (snd (protect_placeholders value))"
  let ?new = "Call value (fst (protect_placeholders value))
           # (case res of Inr t \<Rightarrow> [] | Inl exc \<Rightarrow> [Print (warn_message value (target translator) exc)])"
  from translate_str_miss[OF None tr] assms
  have r: "r = ?r" and st': "st' = st\<lparr>world := w, trace := trace st @ ?new,
         cache := (cache st)((value, target translator) \<mapsto> ?r)\<rparr>"
    by simp_all
  have "cache st \<subseteq>\<^sub>m cache st'" using None by (simp add: st' map_le_def dom_def)
  moreover have "trace st' = trace st @ ?new" by (simp add: st')
  moreover have "list_all translation_event ?new" by (cases res) simp_all
  moreover have cn: "calls ?new = [(value, fst (protect_placeholders value))]" by (cases res) simp_all
  have "distinct (map fst (calls ?new))" by (simp only: cn) simp
  moreover have "list_all (\<lambda>(v, arg). cache st (v, target translator) = None \<and>
                    cache st' (v, target translator) \<noteq> None \<and>
                    arg = fst (protect_placeholders v)) (calls ?new)"
    using None by (simp only: cn) (simp add: st')
  ultimately have "extends translator st st'"
    unfolding extends_def by blast
  then show ?thesis by (simp add: r st')
qed

lemma dict_set_fresh: "k \<notin> fst ` set d \<Longrightarrow> dict_set d k v = d @ [(k, v)]"
  by (induction d) auto

lemma foldl_dict_set_distinct:
  "distinct (map fst (d @ xs)) \<Longrightarrow> foldl (\<lambda>d (k, v). dict_set d k v) d xs = d @ xs"
proof (induction xs arbitrary: d)
  case Nil
  then show ?case by simp
next
  case (Cons x xs)
  obtain k v where x: "x = (k, v)" by (cases x)
  from Cons.prems have "k \<notin> fst ` set d" by (auto simp: x)
  then have "dict_set d k v = d @ [(k, v)]" by (rule dict_set_fresh)
  moreover from Cons.prems have "distinct (map fst ((d @ [(k, v)]) @ xs))" by (simp add: x)
  from Cons.IH[OF this] have "foldl (\<lambda>d (k, v). dict_set d k v) (d @ [(k, v)]) xs = (d @ [(k, v)]) @ xs" .
  ultimately show ?case by (simp add: x)
qed

lemma dict_of_items_distinct: "distinct (map fst xs) \<Longrightarrow> dict_of_items xs = xs"
  using foldl_dict_set_distinct[of "[]" xs] by (simp add: dict_of_items_def)

lemma map_strings_cong:
  "(\<And>s. s \<in> strings V \<Longrightarrow> f s = g s) \<Longrightarrow> map_strings f V = map_strings g V"
proof (induction V)
  case (JDict items)
  have "(case kv of (k, v) \<Rightarrow> (k, map_strings f v)) = (case kv of (k, v) \<Rightarrow> (k, map_strings g v))"
    if "kv \<in> set items" for kv
  proof -
    obtain k v where kv: "kv = (k, v)" by (cases kv)
    with that have "v \<in> snd ` set items" by force
    with JDict.prems have "\<And>s. s \<in> strings v \<Longrightarrow> f s = g s" by auto
    with JDict.IH[of kv v] that kv show ?thesis by simp
  qed
  then show ?case by simp
next
  case (JList vs)
  then show ?case by (auto intro!: map_cong)
qed simp_all

lemma same_shape_items_map:
  "(\<And>kv v. kv \<in> set items \<Longrightarrow> v \<in> Basic_BNFs.snds kv \<Longrightarrow> same_shape v (map_strings f v)) \<Longrightarrow>
   same_shape_items items (map (\<lambda>(k, v). (k, map_strings f v)) items)"
proof (induction items)
  case Nil
  then show ?case by simp
next
  case (Cons kv items)
  obtain k v where kv: "kv = (k, v)" by (cases kv)
  from Cons.prems[of kv v] have "same_shape v (map_strings f v)" by (simp add: kv)
  moreover have "same_shape_items items (map (\<lambda>(k, v). (k, map_strings f v)) items)"
    by (rule Cons.IH) (rule Cons.prems, simp_all)
  ultimately show ?case by (simp add: kv)
qed

lemma same_shape_values_map:
  "(\<And>v. v \<in> set vs \<Longrightarrow> same_shape v (map_strings f v)) \<Longrightarrow>
   same_shape_values vs (map (map_strings f) vs)"
  by (induction vs) simp_all

lemma same_shape_map_strings: "same_shape V (map_strings f V)"
  by (induction V) (simp_all add: same_shape_items_map same_shape_values_map)

lemma cached_extends:
  assumes "extends translator st1 st2" and "cache st1 (s, target translator) \<noteq> None"
  shows "cache st2 (s, target translator) \<noteq> None" and "cached st2 translator s = cached st1 translator s"
proof -
  from assms(2) obtain r where r: "cache st1 (s, target translator) = Some r" by blast
  from assms(1) have "cache st1 \<subseteq>\<^sub>m cache st2" by (simp add: extends_def)
  with r have "cache st2 (s, target translator) = Some r" by (metis domI map_le_def)
  with r show "cache st2 (s, target translator) \<noteq> None"
    and "cached st2 translator s = cached st1 translator s"
    by (simp_all add: cached_def)
qed

lemma map_strings_extends:
  assumes "extends translator st1 st2" and "\<forall>s \<in> strings V. cache st1 (s, target translator) \<noteq> None"
  shows "map_strings (cached st1 translator) V = map_strings (cached st2 translator) V"
  using assms by (intro map_strings_cong) (simp add: cached_extends(2))

lemma translate_run:
  "extends translator st (snd (translate_value V translator st))
   \<and> (\<forall>s \<in> strings V. cache (snd (translate_value V translator st)) (s, target translator) \<noteq> None)
   \<and> (wf_json V \<longrightarrow> fst (translate_value V translator st)
        = map_strings (cached (snd (translate_value V translator st)) translator) V)"
  "extends translator st (snd (translate_items items translator st))
   \<and> (\<forall>v \<in> set (map snd items). \<forall>s \<in> strings v.
        cache (snd (translate_items items translator st)) (s, target translator) \<noteq> None)
   \<and> map fst (fst (translate_items items translator st)) = map fst items
   \<and> (list_all wf_json (map snd items) \<longrightarrow> fst (translate_items items translator st)
        = map (\<lambda>(k, v). (k, map_strings (cached (snd (translate_items items translator st)) translator) v)) items)"
  "extends translator st (snd (translate_values vs translator st))
   \<and> (\<forall>v \<in> set vs. \<forall>s \<in> strings v.
        cache (snd (translate_values vs translator st)) (s, target translator) \<noteq> None)
   \<and> (list_all wf_json vs \<longrightarrow> fst (translate_values vs translator st)
        = map (map_strings (cached (snd (translate_values vs translator st)) translator)) vs)"
proof (induction V translator st and items translator st and vs translator st
    rule: translate_value_translate_items_translate_values.induct)
  case (1 items translator st)
  obtain items' st' where r: "translate_items items translator st = (items', st')"
    by (cases "translate_items items translator st")
  have "dict_of_items items' = items'" if "wf_json (JDict items)"
  proof -
    from 1 r have "map fst items' = map fst items" by simp
    with that show ?thesis by (simp add: dict_of_items_distinct)
  qed
  with 1 r show ?case by simp
next
  case (2 vs translator st)
  obtain vs' st' where "translate_values vs translator st = (vs', st')"
    by (cases "translate_values vs translator st")
  with 2 show ?case by (simp add: list_all_iff)
next
  case (3 "value" translator st)
  obtain r st' where r: "translate_str value translator st = (r, st')"
    by (cases "translate_str value translator st")
  from translate_str_extends[OF r] r show ?case by (simp add: cached_def)
next
  case (9 k v items translator st)
  obtain v' st1 where a: "translate_value v translator st = (v', st1)"
    by (cases "translate_value v translator st")
  obtain items' st2 where b: "translate_items items translator st1 = (items', st2)"
    by (cases "translate_items items translator st1")
  from 9(1) a have e1: "extends translator st st1"
    and c1: "\<forall>s \<in> strings v. cache st1 (s, target translator) \<noteq> None"
    and w1: "wf_json v \<longrightarrow> v' = map_strings (cached st1 translator) v" by simp_all
  from 9(2)[OF a[symmetric] refl] b have e2: "extends translator st1 st2"
    and c2: "\<forall>u \<in> set (map snd items). \<forall>s \<in> strings u. cache st2 (s, target translator) \<noteq> None"
    and k2: "map fst items' = map fst items"
    and w2: "list_all wf_json (map snd items) \<longrightarrow>
        items' = map (\<lambda>(k, v). (k, map_strings (cached st2 translator) v)) items" by simp_all
  have res: "translate_items ((k, v) # items) translator st = ((k, v') # items', st2)"
    using a b by simp
  have "extends translator st st2" using e1 e2 by (rule extends_trans)
  moreover have "\<forall>s \<in> strings v. cache st2 (s, target translator) \<noteq> None"
    using cached_extends(1)[OF e2] c1 by blast
  moreover have "wf_json v \<longrightarrow> v' = map_strings (cached st2 translator) v"
    using w1 map_strings_extends[OF e2 c1] by simp
  ultimately show ?case unfolding res using c2 k2 w2 by simp
next
  case (11 v vs translator st)
  obtain v' st1 where a: "translate_value v translator st = (v', st1)"
    by (cases "translate_value v translator st")
  obtain vs' st2 where b: "translate_values vs translator st1 = (vs', st2)"
    by (cases "translate_values vs translator st1")
  from 11(1) a have e1: "extends translator st st1"
    and c1: "\<forall>s \<in> strings v. cache st1 (s, target translator) \<noteq> None"
    and w1: "wf_json v \<longrightarrow> v' = map_strings (cached st1 translator) v" by simp_all
  from 11(2)[OF a[symmetric] refl] b have e2: "extends translator st1 st2"
    and c2: "\<forall>u \<in> set vs. \<forall>s \<in> strings u. cache st2 (s, target translator) \<noteq> None"
    and w2: "list_all wf_json vs \<longrightarrow> vs' = map (map_strings (cached st2 translator)) vs" by simp_all
  have res: "translate_values (v # vs) translator st = (v' # vs', st2)"
    using a b by simp
  have "extends translator st st2" using e1 e2 by (rule extends_trans)
  moreover have "\<forall>s \<in> strings v. cache st2 (s, target translator) \<noteq> None"
    using cached_extends(1)[OF e2] c1 by blast
  moreover have "wf_json v \<longrightarrow> v' = map_strings (cached st2 translator) v"
    using w1 map_strings_extends[OF e2 c1] by simp
  ultimately show ?case unfolding res using c2 w2 by simp
qed (simp_all add: extends_refl)

lemma new_events_extends:
  assumes "extends translator st st'"
  shows "trace st' = trace st @ new_events st st'"
    and "list_all translation_event (new_events st st')"
    and "distinct (map fst (calls (new_events st st')))"
    and "list_all (\<lambda>(value, arg). cache st (value, target translator) = None \<and>
            cache st' (value, target translator) \<noteq> None \<and>
            arg = fst (protect_placeholders value)) (calls (new_events st st'))"
proof -
  from assms obtain new where n: "trace st' = trace st @ new" "list_all translation_event new"
    "distinct (map fst (calls new))"
    "list_all (\<lambda>(value, arg). cache st (value, target translator) = None \<and>
            cache st' (value, target translator) \<noteq> None \<and>
            arg = fst (protect_placeholders value)) (calls new)"
    unfolding extends_def by blast
  then have "new_events st st' = new" by (simp add: new_events_def)
  with n show "trace st' = trace st @ new_events st st'"
    and "list_all translation_event (new_events st st')"
    and "distinct (map fst (calls (new_events st st')))"
    and "list_all (\<lambda>(value, arg). cache st (value, target translator) = None \<and>
            cache st' (value, target translator) \<noteq> None \<and>
            arg = fst (protect_placeholders value)) (calls (new_events st st'))"
    by simp_all
qed

section \<open>Lemmas about the command line run\<close>

lemma map_fst_dict_set:
  "map fst (dict_set d k v) = (if k \<in> set (map fst d) then map fst d else map fst d @ [k])"
proof (induction d)
  case Nil
  show ?case by simp
next
  case (Cons p d)
  obtain k' v' where p: "p = (k', v')" by (cases p)
  show ?case
  proof (cases "k' = k")
    case True
    then show ?thesis by (simp add: p)
  next
    case False
    with Cons show ?thesis by (simp add: p)
  qed
qed

lemma keys_dict_set: "set (map fst (dict_set d k v)) = insert k (set (map fst d))"
  by (auto simp: map_fst_dict_set)

lemma distinct_dict_set: "distinct (map fst d) \<Longrightarrow> distinct (map fst (dict_set d k v))"
  by (auto simp: map_fst_dict_set)

lemma lang_dict_keys:
  "\<forall>code \<in> set codes. map_of BUNDLED_LANGS code \<noteq> None \<Longrightarrow> distinct (map fst d) \<Longrightarrow>
   \<exists>d'. lang_dict codes d = Inr d' \<and> set (map fst d') = set (map fst d) \<union> set codes
      \<and> distinct (map fst d')"
proof (induction codes arbitrary: d)
  case Nil
  then show ?case by simp
next
  case (Cons code codes)
  from Cons.prems(1) obtain lang_code where l: "map_of BUNDLED_LANGS code = Some lang_code" by auto
  have step: "lang_dict (code # codes) d = lang_dict codes (dict_set d code lang_code)"
    by (simp add: l)
  from Cons.prems(1) have rest: "\<forall>c \<in> set codes. map_of BUNDLED_LANGS c \<noteq> None" by simp
  from Cons.prems(2) have dist: "distinct (map fst (dict_set d code lang_code))"
    by (rule distinct_dict_set)
  from Cons.IH[OF rest dist] obtain d' where d': "lang_dict codes (dict_set d code lang_code) = Inr d'"
    "set (map fst d') = set (map fst (dict_set d code lang_code)) \<union> set codes"
    "distinct (map fst d')" by blast
  from d'(2) have "set (map fst d') = set (map fst d) \<union> set (code # codes)"
    unfolding keys_dict_set by simp
  with d'(1,3) show ?case unfolding step by blast
qed

lemma configured_codes:
  "(map_of BUNDLED_LANGS code \<noteq> None) =
   (code \<in> {''pl'', ''de'', ''fr'', ''it'', ''nl'', ''ar'', ''ja'', ''ko''})"
proof -
  have "(map_of BUNDLED_LANGS code \<noteq> None) = (code \<in> fst ` set BUNDLED_LANGS)"
    by (simp add: map_of_eq_None_iff)
  also have "fst ` set BUNDLED_LANGS = {''pl'', ''de'', ''fr'', ''it'', ''nl'', ''ar'', ''ja'', ''ko''}"
    by (simp add: BUNDLED_LANGS_def)
  finally show ?thesis .
qed

lemma translate_value_written:
  "written (trace (snd (translate_value V translator st))) = written (trace st)"
proof -
  let ?st' = "snd (translate_value V translator st)"
  from translate_run(1)[of translator st V] have e: "extends translator st ?st'" by simp
  from new_events_extends(1,2)[OF e] written_translation_events[of "new_events st ?st'"]
  show ?thesis by (metis append_Nil2 written_append)
qed

lemma translate_locales_written:
  "\<forall>name content. write_file e (output_dir a) name content = None \<Longrightarrow>
   fst (translate_locales e a source_data selected st) = None
   \<and> written (trace (snd (translate_locales e a source_data selected st)))
      = written (trace st) @ map (\<lambda>(locale, lang_code). (output_dir a, locale @ ''.json'')) selected"
proof (induction selected arbitrary: st)
  case Nil
  then show ?case by simp
next
  case (Cons p selected)
  obtain loc lang_code where p: "p = (loc, lang_code)" by (cases p)
  let ?st1 = "st\<lparr>trace := trace st @ [Print (''Translating locale '' @ [CHR 0x27] @ loc @ [CHR 0x27] @ ''...'')],
                   cache := Map.empty\<rparr>"
  let ?tr = "\<lparr>target = lang_code, translate = service e lang_code\<rparr>"
  obtain translated st2 where r: "translate_value source_data ?tr ?st1 = (translated, st2)"
    by (cases "translate_value source_data ?tr ?st1")
  let ?st3 = "st2\<lparr>trace := trace st2 @ [WriteFile (output_dir a) (loc @ ''.json'') translated]\<rparr>"
  from translate_value_written[of source_data ?tr ?st1] r
  have "written (trace st2) = written (trace st)" by (simp add: written_append)
  then have w3: "written (trace ?st3) = written (trace st) @ [(output_dir a, loc @ ''.json'')]"
    by (simp add: written_append)
  from Cons.prems r have step: "translate_locales e a source_data (p # selected) st
      = translate_locales e a source_data selected ?st3"
    by (simp add: p Let_def)
  from Cons.IH[OF Cons.prems, of ?st3] w3 show ?case
    unfolding step by (simp add: p)
qed

lemma translate_locales_written_prefix:
  "\<exists>n. written (trace (snd (translate_locales e a source_data selected st)))
      = written (trace st) @ map (\<lambda>(l, c). (output_dir a, l @ ''.json'')) (take n selected)"
proof (induction selected arbitrary: st)
  case Nil
  then show ?case by simp
next
  case (Cons p selected)
  obtain loc lang_code where p: "p = (loc, lang_code)" by (cases p)
  let ?st1 = "st\<lparr>trace := trace st @ [Print (''Translating locale '' @ [CHR 0x27] @ loc @ [CHR 0x27] @ ''...'')],
                   cache := Map.empty\<rparr>"
  let ?tr = "\<lparr>target = lang_code, translate = service e lang_code\<rparr>"
  obtain translated st2 where r: "translate_value source_data ?tr ?st1 = (translated, st2)"
    by (cases "translate_value source_data ?tr ?st1")
  let ?st3 = "st2\<lparr>trace := trace st2 @ [WriteFile (output_dir a) (loc @ ''.json'') translated]\<rparr>"
  from translate_value_written[of source_data ?tr ?st1] r
  have "written (trace st2) = written (trace st)" by (simp add: written_append)
  then have w3: "written (trace ?st3) = written (trace st) @ [(output_dir a, loc @ ''.json'')]"
    by (simp add: written_append)
  show ?case
  proof (cases "write_file e (output_dir a) (loc @ ''.json'') translated")
    case (Some err)
    with r have "translate_locales e a source_data (p # selected) st = (Some err, ?st3)"
      by (simp add: p Let_def)
    with w3 have "written (trace (snd (translate_locales e a source_data (p # selected) st)))
        = written (trace st) @ map (\<lambda>(l, c). (output_dir a, l @ ''.json'')) (take 1 (p # selected))"
      by (simp add: p)
    then show ?thesis by blast
  next
    case None
    with r have step: "translate_locales e a source_data (p # selected) st
        = translate_locales e a source_data selected ?st3"
      by (simp add: p Let_def)
    from Cons.IH[of ?st3] obtain n
      where "written (trace (snd (translate_locales e a source_data selected ?st3)))
        = written (trace ?st3) @ map (\<lambda>(l, c). (output_dir a, l @ ''.json'')) (take n selected)"
      by blast
    with w3 have "written (trace (snd (translate_locales e a source_data (p # selected) st)))
        = written (trace st) @ map (\<lambda>(l, c). (output_dir a, l @ ''.json'')) (take (Suc n) (p # selected))"
      unfolding step by (simp add: p)
    then show ?thesis by blast
  qed
qed

lemma main_written_prefix:
  assumes "target_langs (langs a) = Inr d"
  shows "\<exists>n. written (snd (snd (main e a w))) = map (\<lambda>l. (output_dir a, l @ ''.json'')) (take n (map fst d))"
proof (cases "load_source e (source a)")
  case (Inl err)
  with assms have "written (snd (snd (main e a w))) = map (\<lambda>l. (output_dir a, l @ ''.json'')) (take 0 (map fst d))"
    by (simp add: main_def)
  then show ?thesis by blast
next
  case (Inr source_data)
  show ?thesis
  proof (cases "make_dirs e (output_dir a)")
    case (Some err)
    with assms Inr have "written (snd (snd (main e a w))) = map (\<lambda>l. (output_dir a, l @ ''.json'')) (take 0 (map fst d))"
      by (simp add: main_def)
    then show ?thesis by blast
  next
    case None
    let ?st0 = "\<lparr>cache = Map.empty, world = w,
                  trace = [ReadFile (source a), MakeDirs (output_dir a)]\<rparr> :: ('b, 'a) run_state"
    obtain r st' where res: "translate_locales e a source_data d ?st0 = (r, st')"
      by (cases "translate_locales e a source_data d ?st0")
    from translate_locales_written_prefix[of e a source_data d ?st0] res obtain n
      where n: "written (trace st') = map (\<lambda>(l, c). (output_dir a, l @ ''.json'')) (take n d)"
      by auto
    have "written (snd (snd (main e a w))) = written (trace st')"
      using assms Inr None res by (cases r) (simp_all add: main_def written_append)
    with n have "written (snd (snd (main e a w))) = map (\<lambda>l. (output_dir a, l @ ''.json'')) (take n (map fst d))"
      by (simp add: take_map case_prod_beta comp_def)
    then show ?thesis by blast
  qed
qed

lemma locale_filtering_aux:
  assumes conf: "\<And>code. (map_of BUNDLED_LANGS code \<noteq> None) = (code \<in> conf)"
  shows "(langs a = Some codes \<and> codes \<noteq> [] \<and> set codes \<subseteq> conf
    \<longrightarrow> distinct (written (snd (snd (main e a w))))
       \<and> set (written (snd (snd (main e a w))))
           \<subseteq> (\<lambda>code. (output_dir a, code @ ''.json'')) ` set codes)
   \<and> (langs a = Some codes \<and> codes \<noteq> [] \<and> set codes \<subseteq> conf
      \<and> load_source e (source a) = Inr source_data \<and> make_dirs e (output_dir a) = None
      \<and> (\<forall>name content. write_file e (output_dir a) name content = None)
    \<longrightarrow> fst (main e a w) = None
       \<and> set (written (snd (snd (main e a w))))
           = (\<lambda>code. (output_dir a, code @ ''.json'')) ` set codes)
   \<and> (langs a = Some codes \<and> \<not> set codes \<subseteq> conf
    \<longrightarrow> main e a w =
         (Some (ValueError (''Unsupported locale codes: '' @ join '', ''
            (filter (\<lambda>code. code \<notin> conf) codes))), w, []))"
proof (intro conjI impI)
  let ?missing = "filter (\<lambda>code. map_of BUNDLED_LANGS code = None) codes"
  let ?f = "\<lambda>l. (output_dir a, l @ ''.json'')"
  have "(\<lambda>code. map_of BUNDLED_LANGS code = None) = (\<lambda>code. code \<notin> conf)"
    using conf by (intro ext) (metis (full_types))
  then have missing: "?missing = filter (\<lambda>code. code \<notin> conf) codes" by simp
  have selected: "\<exists>d. target_langs (langs a) = Inr d \<and> set (map fst d) = set codes \<and> distinct (map fst d)"
    if h: "langs a = Some codes \<and> codes \<noteq> [] \<and> set codes \<subseteq> conf"
  proof -
    from h have valid: "\<forall>code \<in> set codes. map_of BUNDLED_LANGS code \<noteq> None"
      using conf by blast
    then have none: "?missing = []" by (simp add: filter_empty_conv)
    from lang_dict_keys[OF valid, of "[]"] obtain d where d: "lang_dict codes [] = Inr d"
      "set (map fst d) = set codes" "distinct (map fst d)" by auto
    from h none d(1) have "target_langs (langs a) = Inr d"
      by (simp add: target_langs_def)
    with d show ?thesis by blast
  qed
  {
    assume h: "langs a = Some codes \<and> codes \<noteq> [] \<and> set codes \<subseteq> conf"
    from selected[OF h] obtain d where d: "target_langs (langs a) = Inr d"
      "set (map fst d) = set codes" "distinct (map fst d)" by blast
    from main_written_prefix[OF d(1), of e w] obtain n
      where n: "written (snd (snd (main e a w))) = map ?f (take n (map fst d))" by blast
    have "distinct (take n (map fst d))" using d(3) by (rule distinct_take)
    then show "distinct (written (snd (snd (main e a w))))"
      unfolding n by (simp add: distinct_map inj_on_def)
    from set_take_subset[of n "map fst d"] d(2)
    have "set (take n (map fst d)) \<subseteq> set codes" by simp
    then have "?f ` set (take n (map fst d)) \<subseteq> ?f ` set codes" by (rule image_mono)
    then show "set (written (snd (snd (main e a w)))) \<subseteq> ?f ` set codes"
      unfolding n by (simp only: set_map)
  }
  {
    assume h: "langs a = Some codes \<and> codes \<noteq> [] \<and> set codes \<subseteq> conf
      \<and> load_source e (source a) = Inr source_data \<and> make_dirs e (output_dir a) = None
      \<and> (\<forall>name content. write_file e (output_dir a) name content = None)"
    then have "langs a = Some codes \<and> codes \<noteq> [] \<and> set codes \<subseteq> conf" by simp
    from selected[OF this] obtain d where d: "target_langs (langs a) = Inr d"
      "set (map fst d) = set codes" "distinct (map fst d)" by blast
    let ?st0 = "\<lparr>cache = Map.empty, world = w,
                  trace = [ReadFile (source a), MakeDirs (output_dir a)]\<rparr> :: ('b, 'a) run_state"
    let ?res = "translate_locales e a source_data d ?st0"
    from h have wr: "\<forall>name content. write_file e (output_dir a) name content = None" by simp
    from translate_locales_written[OF wr, of source_data d ?st0]
    have ok: "fst ?res = None"
      and files: "written (trace (snd ?res)) = map (\<lambda>(l, c). (output_dir a, l @ ''.json'')) d"
      by simp_all
    obtain st' where res: "?res = (None, st')" using ok by (cases ?res) simp
    from h d(1) res have m: "main e a w = (None, world st', trace st' @ [Print ''Translation complete.''])"
      by (simp add: main_def)
    from files res have wr': "written (snd (snd (main e a w))) = map ?f (map fst d)"
      by (simp add: m written_append case_prod_beta comp_def)
    show "fst (main e a w) = None" by (simp add: m)
    show "set (written (snd (snd (main e a w)))) = ?f ` set codes"
      unfolding wr' using d(2) by (metis set_map)
  }
  {
    assume h: "langs a = Some codes \<and> \<not> set codes \<subseteq> conf"
    then have "filter (\<lambda>code. code \<notin> conf) codes \<noteq> []"
      by (auto simp: filter_empty_conv)
    with missing have ne: "?missing \<noteq> []" by simp
    from h have "codes \<noteq> []" by auto
    with h ne have "target_langs (langs a)
        = Inl (ValueError (''Unsupported locale codes: '' @ join '', '' ?missing))"
      by (simp add: target_langs_def Let_def)
    then show "main e a w =
         (Some (ValueError (''Unsupported locale codes: '' @ join '', ''
            (filter (\<lambda>code. code \<notin> conf) codes))), w, [])"
      unfolding missing by (simp add: main_def)
  }
qed

section \<open>The placeholder guard: round trip, strings without placeholders, restoring\<close>

text \<open>
  Claim C1 as stated fails: for the string \<open>__TOKEN_0__ {a}\<close>, which contains the one
  well-formed placeholder \<open>{a}\<close>, guarding gives \<open>__TOKEN_0__ __TOKEN_0__\<close> with the token
  \<open>{a}\<close>, and restoring replaces both markers, the one that was in the input too: the
  result is \<open>{a} {a}\<close>, not the input.
\<close>

theorem roundtrip_collision:
  "restore_placeholders (fst (protect_placeholders ''__TOKEN_0__ {a}''))
      (snd (protect_placeholders ''__TOKEN_0__ {a}'')) = ''{a} {a}''
   \<and> restore_placeholders (fst (protect_placeholders ''__TOKEN_0__ {a}''))
      (snd (protect_placeholders ''__TOKEN_0__ {a}'')) \<noteq> ''__TOKEN_0__ {a}''"
  by code_simp

text \<open>
  Claim C1, amended: for every string \<open>S\<close> in which the text \<open>TOKEN_\<close> is nowhere
  followed by a decimal digit, restoring the placeholders on the guarded string, with no
  translation applied, gives back \<open>S\<close> exactly.
\<close>

theorem roundtrip_without_stem:
  "stem_free S \<Longrightarrow>
   (case protect_placeholders S of (safe_text, tokens) \<Rightarrow> restore_placeholders safe_text tokens) = S"
  using restore_protect[of S] by (simp add: case_prod_beta)

theorem roundtrip_without_stem_witness:
  "stem_free ''API_TOKEN_{id} for {{name}}''
   \<and> protect_placeholders ''API_TOKEN_{id} for {{name}}''
      = (''API_TOKEN___TOKEN_0__ for __TOKEN_1__'', [''{id}'', ''{{name}}''])
   \<and> (case protect_placeholders ''API_TOKEN_{id} for {{name}}'' of
        (safe_text, tokens) \<Rightarrow> restore_placeholders safe_text tokens) = ''API_TOKEN_{id} for {{name}}''"
proof -
  have h: "stem_free ''API_TOKEN_{id} for {{name}}''" by code_simp
  have p: "protect_placeholders ''API_TOKEN_{id} for {{name}}''
      = (''API_TOKEN___TOKEN_0__ for __TOKEN_1__'', [''{id}'', ''{{name}}''])" by code_simp
  from h p roundtrip_without_stem[OF h] show ?thesis by simp
qed

text \<open>
  Claim C7: for every string \<open>S\<close> no substring of which matches the placeholder pattern,
  \<open>protect_placeholders\<close> returns \<open>S\<close> unchanged with an empty token sequence, and
  \<open>restore_placeholders\<close> with that sequence returns any text unchanged.
\<close>

theorem no_placeholder_unchanged:
  "(\<forall>u. sublist u S \<longrightarrow> \<not> is_placeholder u) \<Longrightarrow>
   protect_placeholders S = (S, []) \<and>
   restore_placeholders text (snd (protect_placeholders S)) = text"
proof -
  assume "\<forall>u. sublist u S \<longrightarrow> \<not> is_placeholder u"
  then have "\<not> pattern_search S" by (simp add: pattern_search_iff)
  then show ?thesis
    by (simp add: protect_placeholders_def restore_placeholders_def pattern_sub_no_match)
qed

theorem no_placeholder_unchanged_witness:
  "\<not> pattern_search ''Save {} now'' \<and>
   protect_placeholders ''Save {} now'' = (''Save {} now'', []) \<and>
   restore_placeholders ''Jetzt speichern'' (snd (protect_placeholders ''Save {} now''))
     = ''Jetzt speichern''"
proof -
  have h: "\<not> pattern_search ''Save {} now''" by code_simp
  then have "\<forall>u. sublist u ''Save {} now'' \<longrightarrow> \<not> is_placeholder u"
    by (simp only: pattern_search_iff) blast
  from h no_placeholder_unchanged[OF this, of "''Jetzt speichern''"] show ?thesis by blast
qed

text \<open>
  Claim C9: \<open>restore_placeholders\<close> handles the markers in increasing index order (the
  token with the largest index is substituted last, into the text in which the tokens
  before it are restored), and a step replaces every occurrence of its marker by the
  same token: a text made of segments separated by the marker, in which the marker
  occurs nowhere else, becomes the segments separated by the token.
\<close>

theorem restore_replaces_every_occurrence:
  "restore_placeholders text (tokens @ [token])
     = replace_str (marker (length tokens)) token (restore_placeholders text tokens)
   \<and> (segs \<noteq> [] \<and> (\<forall>seg \<in> set (butlast segs). \<not> sublist (marker idx) (seg @ butlast (marker idx)))
        \<and> \<not> sublist (marker idx) (last segs)
      \<longrightarrow> replace_str (marker idx) token (join (marker idx) segs) = join token segs)"
proof -
  have "restore_from k s (tokens @ [token])
      = replace_str (marker (k + length tokens)) token (restore_from k s tokens)" for k s
    by (induction tokens arbitrary: k s) simp_all
  from this[of 0 "text"] have "restore_placeholders text (tokens @ [token])
     = replace_str (marker (length tokens)) token (restore_placeholders text tokens)"
    by (simp add: restore_placeholders_def)
  moreover have "marker idx \<noteq> []" by (simp add: marker_def)
  ultimately show ?thesis using replace_str_join[of "marker idx" segs token] by blast
qed

theorem restore_replaces_every_occurrence_witness:
  "join (marker 0) [''a '', '' b '', '' c''] = ''a __TOKEN_0__ b __TOKEN_0__ c''
   \<and> restore_placeholders ''a __TOKEN_0__ b __TOKEN_0__ c'' ([] @ [''{x}'']) = ''a {x} b {x} c''"
proof -
  have j: "join (marker 0) [''a '', '' b '', '' c''] = ''a __TOKEN_0__ b __TOKEN_0__ c''"
    by code_simp
  have h: "[''a '', '' b '', '' c''] \<noteq> []
      \<and> (\<forall>seg \<in> set (butlast [''a '', '' b '', '' c'']). \<not> sublist (marker 0) (seg @ butlast (marker 0)))
      \<and> \<not> sublist (marker 0) (last [''a '', '' b '', '' c''])"
    by code_simp
  have r: "restore_placeholders ''a __TOKEN_0__ b __TOKEN_0__ c'' [] = ''a __TOKEN_0__ b __TOKEN_0__ c''"
    by (simp add: restore_placeholders_def)
  note both = restore_replaces_every_occurrence[of "''a __TOKEN_0__ b __TOKEN_0__ c''" "[]" "''{x}''"
      "[''a '', '' b '', '' c'']" 0]
  from both have "restore_placeholders ''a __TOKEN_0__ b __TOKEN_0__ c'' ([] @ [''{x}''])
      = replace_str (marker (length ([] :: string list))) ''{x}''
          (restore_placeholders ''a __TOKEN_0__ b __TOKEN_0__ c'' [])"
    by (rule conjunct1)
  also have "\<dots> = replace_str (marker 0) ''{x}'' (join (marker 0) [''a '', '' b '', '' c''])"
    by (simp only: r j list.size)
  also from both h have "\<dots> = join ''{x}'' [''a '', '' b '', '' c'']"
    by blast
  also have "\<dots> = ''a {x} b {x} c''" by simp
  finally show ?thesis using j by simp
qed

section \<open>The end-to-end example\<close>

text \<open>
  Claim C6: for the document \<open>{"greeting": "Hello {{name}}", "count": 3}\<close> and a translation
  function that upper-cases the safe text, \<open>translate_value\<close> returns
  \<open>{"greeting": "HELLO {{name}}", "count": 3}\<close>.
\<close>

theorem end_to_end_example:
  "fst (translate_value (JDict [(''greeting'', JStr ''Hello {{name}}''), (''count'', JInt 3)] :: unit json)
          (upper_translator ''de'') (fresh () :: (unit, unit) run_state))
     = JDict [(''greeting'', JStr ''HELLO {{name}}''), (''count'', JInt 3)]"
  by code_simp

section \<open>The tree translator: shape, cache, failures, termination\<close>

text \<open>
  Claim C3: for every JSON-like value \<open>V\<close> (a dict has distinct keys), every translator
  and every state, \<open>translate_value\<close> returns a value of the same shape: dicts with the
  same keys in the same order, lists of the same length, and numbers, booleans and
  nulls unchanged.
\<close>

theorem structure_preserved:
  "wf_json V \<Longrightarrow> same_shape V (fst (translate_value V translator st))"
  using translate_run(1)[of translator st V] same_shape_map_strings by metis

theorem structure_preserved_witness:
  "wf_json (JDict [(''title'', JStr ''Bid {n}''), (''rows'', JList [JInt 5, JBool True, JNull, JStr ''ok''])] :: unit json)
   \<and> same_shape (JDict [(''title'', JStr ''Bid {n}''), (''rows'', JList [JInt 5, JBool True, JNull, JStr ''ok''])])
       (fst (translate_value (JDict [(''title'', JStr ''Bid {n}''), (''rows'', JList [JInt 5, JBool True, JNull, JStr ''ok''])])
          (upper_translator ''de'') (fresh () :: (unit, unit) run_state)))
   \<and> fst (translate_value (JDict [(''title'', JStr ''Bid {n}''), (''rows'', JList [JInt 5, JBool True, JNull, JStr ''ok''])])
          (upper_translator ''de'') (fresh () :: (unit, unit) run_state))
     = JDict [(''title'', JStr ''BID {n}''), (''rows'', JList [JInt 5, JBool True, JNull, JStr ''OK''])]"
proof -
  let ?V = "JDict [(''title'', JStr ''Bid {n}''), (''rows'', JList [JInt 5, JBool True, JNull, JStr ''ok''])] :: unit json"
  have w: "wf_json ?V" by simp
  have r: "fst (translate_value ?V (upper_translator ''de'') (fresh () :: (unit, unit) run_state))
     = JDict [(''title'', JStr ''BID {n}''), (''rows'', JList [JInt 5, JBool True, JNull, JStr ''OK''])]"
    by code_simp
  from w r structure_preserved[OF w, of "upper_translator ''de''" "fresh ()"] show ?thesis by simp
qed

text \<open>
  Claim C4: in a run of \<open>translate_value\<close> over a document, from any state of the cache
  (an empty one at the start of a language), the calls of the translation function made
  during the run are made for pairwise distinct source strings, so for each string \<open>S\<close>
  at most once, each on the guarded form of its string and only for a string that the
  cache lacked; every occurrence of a string \<open>S\<close> in the document yields the same
  value, the one the cache holds for \<open>S\<close> at the end; and a string found in the cache
  is answered from the cache with no call and no change of state.
\<close>

theorem each_string_sent_once:
  "wf_json V \<Longrightarrow> translate_value V translator st = (V', st') \<Longrightarrow>
   trace st' = trace st @ new_events st st'
   \<and> distinct (map fst (calls (new_events st st')))
   \<and> list_all (\<lambda>(S, arg). arg = fst (protect_placeholders S) \<and> cache st (S, target translator) = None)
        (calls (new_events st st'))
   \<and> V' = map_strings (cached st' translator) V
   \<and> (cache st (S, target translator) = Some hit \<longrightarrow>
        translate_value (JStr S) translator st = (JStr hit, st))"
proof -
  assume w: "wf_json V" and r: "translate_value V translator st = (V', st')"
  from translate_run(1)[of translator st V] r w have e: "extends translator st st'"
    and m: "V' = map_strings (cached st' translator) V" by simp_all
  from new_events_extends(4)[OF e]
  have "list_all (\<lambda>(S, arg). arg = fst (protect_placeholders S) \<and> cache st (S, target translator) = None)
        (calls (new_events st st'))"
    by (auto simp: list_all_iff)
  with new_events_extends(1,3)[OF e] m show ?thesis
    by (simp add: translate_str_hit)
qed

theorem each_string_sent_once_witness:
  "wf_json (JList [JStr ''Bid {n}'', JStr ''Bid {n}'', JDict [(''a'', JStr ''Bid {n}'')]] :: unit json)
   \<and> calls (new_events (fresh ())
        (snd (translate_value (JList [JStr ''Bid {n}'', JStr ''Bid {n}'', JDict [(''a'', JStr ''Bid {n}'')]] :: unit json)
          (upper_translator ''de'') (fresh ()))))
     = [(''Bid {n}'', ''Bid __TOKEN_0__'')]
   \<and> distinct (map fst (calls (new_events (fresh ())
        (snd (translate_value (JList [JStr ''Bid {n}'', JStr ''Bid {n}'', JDict [(''a'', JStr ''Bid {n}'')]] :: unit json)
          (upper_translator ''de'') (fresh ()))))))
   \<and> fst (translate_value (JList [JStr ''Bid {n}'', JStr ''Bid {n}'', JDict [(''a'', JStr ''Bid {n}'')]] :: unit json)
          (upper_translator ''de'') (fresh () :: (unit, unit) run_state))
     = JList [JStr ''BID {n}'', JStr ''BID {n}'', JDict [(''a'', JStr ''BID {n}'')]]"
proof -
  let ?V = "JList [JStr ''Bid {n}'', JStr ''Bid {n}'', JDict [(''a'', JStr ''Bid {n}'')]] :: unit json"
  let ?run = "translate_value ?V (upper_translator ''de'') (fresh () :: (unit, unit) run_state)"
  have w: "wf_json ?V" by simp
  have c: "calls (new_events (fresh ()) (snd ?run)) = [(''Bid {n}'', ''Bid __TOKEN_0__'')]"
    by code_simp
  have r: "fst ?run = JList [JStr ''BID {n}'', JStr ''BID {n}'', JDict [(''a'', JStr ''BID {n}'')]]"
    by code_simp
  have "?run = (fst ?run, snd ?run)" by simp
  from each_string_sent_once[OF w this]
  have "distinct (map fst (calls (new_events (fresh ()) (snd ?run))))" by blast
  with w c r show ?thesis by blast
qed

text \<open>
  The calls are counted per source string. Two different strings can have the same
  guarded form, which is then passed once for each of them.
\<close>

lemma shared_guarded_form:
  "calls (trace (snd (translate_value (JList [JStr ''{a}'', JStr ''{b}''] :: unit json)
      (upper_translator ''de'') (fresh () :: (unit, unit) run_state))))
     = [(''{a}'', ''__TOKEN_0__''), (''{b}'', ''__TOKEN_0__'')]"
  by code_simp

text \<open>
  Claim C8: when the translation function raises for a string \<open>S\<close> that the cache lacks,
  the fallback (the safe text of \<open>S\<close> with the placeholders restored) is returned and
  stored in the cache under \<open>(S, target)\<close>; and from any state whose cache holds that
  entry, a run over a document keeps the entry, makes no call for \<open>S\<close>, and returns the
  fallback at every occurrence of \<open>S\<close>.
\<close>

theorem failed_string_not_retried:
  "cache st (S, target translator) = None \<Longrightarrow>
   translate translator (fst (protect_placeholders S)) (world st) = (Inl exc, w) \<Longrightarrow>
   fallback = restore_placeholders (fst (protect_placeholders S)) (snd (protect_placeholders S)) \<Longrightarrow>
   fst (translate_value (JStr S) translator st) = JStr fallback
   \<and> cache (snd (translate_value (JStr S) translator st)) (S, target translator) = Some fallback
   \<and> (wf_json V \<and> cache st2 (S, target translator) = Some fallback \<longrightarrow>
        cache (snd (translate_value V translator st2)) (S, target translator) = Some fallback
        \<and> S \<notin> fst ` set (calls (new_events st2 (snd (translate_value V translator st2))))
        \<and> fst (translate_value V translator st2)
            = map_strings (cached (snd (translate_value V translator st2)) translator) V
        \<and> cached (snd (translate_value V translator st2)) translator S = fallback)"
proof -
  assume miss: "cache st (S, target translator) = None"
    and raises: "translate translator (fst (protect_placeholders S)) (world st) = (Inl exc, w)"
    and fb: "fallback = restore_placeholders (fst (protect_placeholders S)) (snd (protect_placeholders S))"
  from translate_str_miss[OF miss raises] fb
  have first: "fst (translate_value (JStr S) translator st) = JStr fallback"
    "cache (snd (translate_value (JStr S) translator st)) (S, target translator) = Some fallback"
    by simp_all
  have later: "cache (snd (translate_value V translator st2)) (S, target translator) = Some fallback
        \<and> S \<notin> fst ` set (calls (new_events st2 (snd (translate_value V translator st2))))
        \<and> fst (translate_value V translator st2)
            = map_strings (cached (snd (translate_value V translator st2)) translator) V
        \<and> cached (snd (translate_value V translator st2)) translator S = fallback"
    if w: "wf_json V" and held: "cache st2 (S, target translator) = Some fallback"
  proof -
    let ?st3 = "snd (translate_value V translator st2)"
    from translate_run(1)[of translator st2 V] w have e: "extends translator st2 ?st3"
      and m: "fst (translate_value V translator st2) = map_strings (cached ?st3 translator) V"
      by simp_all
    from e have "cache st2 \<subseteq>\<^sub>m cache ?st3" by (simp add: extends_def)
    with held have kept: "cache ?st3 (S, target translator) = Some fallback"
      by (metis domI map_le_def)
    from new_events_extends(4)[OF e] held
    have "S \<notin> fst ` set (calls (new_events st2 ?st3))"
      by (auto simp: list_all_iff)
    with kept m show ?thesis by (simp add: cached_def)
  qed
  from first later show ?thesis by blast
qed

theorem failed_string_not_retried_witness:
  "fst (translate_value (JStr ''Bid {n}'' :: unit json) (failing_translator ''de'') (fresh ())) = JStr ''Bid {n}''
   \<and> calls (trace (snd (translate_value (JList [JStr ''Bid {n}'', JStr ''Bid {n}''] :: unit json)
        (failing_translator ''de'') (fresh ())))) = [(''Bid {n}'', ''Bid __TOKEN_0__'')]
   \<and> ''Bid {n}'' \<notin> fst ` set (calls (new_events
        (snd (translate_value (JStr ''Bid {n}'' :: unit json) (failing_translator ''de'') (fresh ())))
        (snd (translate_value (JList [JStr ''Bid {n}'', JStr ''Bid {n}''])
           (failing_translator ''de'')
           (snd (translate_value (JStr ''Bid {n}'' :: unit json) (failing_translator ''de'') (fresh ())))))))"
proof -
  let ?tr = "failing_translator ''de''"
  let ?st = "fresh () :: (unit, unit) run_state"
  let ?st1 = "snd (translate_value (JStr ''Bid {n}'' :: unit json) ?tr ?st)"
  let ?V = "JList [JStr ''Bid {n}'', JStr ''Bid {n}''] :: unit json"
  have miss: "cache ?st (''Bid {n}'', target ?tr) = None" by (simp add: fresh_def)
  have raises: "translate ?tr (fst (protect_placeholders ''Bid {n}'')) (world ?st) = (Inl ''service unavailable'', ())"
    by (simp add: failing_translator_def)
  have fb: "''Bid {n}'' = restore_placeholders (fst (protect_placeholders ''Bid {n}'')) (snd (protect_placeholders ''Bid {n}''))"
    by code_simp
  have w: "wf_json ?V" by simp
  have c: "calls (trace (snd (translate_value ?V ?tr ?st))) = [(''Bid {n}'', ''Bid __TOKEN_0__'')]"
    by code_simp
  note t = failed_string_not_retried[OF miss raises fb, of ?V ?st1]
  from t have held: "cache ?st1 (''Bid {n}'', target ?tr) = Some ''Bid {n}''" by blast
  from t w held have "''Bid {n}'' \<notin> fst ` set (calls (new_events ?st1 (snd (translate_value ?V ?tr ?st1))))"
    by blast
  moreover from t have "fst (translate_value (JStr ''Bid {n}'' :: unit json) ?tr ?st) = JStr ''Bid {n}''"
    by blast
  ultimately show ?thesis using c by blast
qed

text \<open>
  Claim C2 as stated fails: with a translator that raises, the string
  \<open>__TOKEN_0__ {a}\<close> comes back as \<open>{a} {a}\<close>, since the fallback is the safe text with
  every marker in it replaced, the one that was in the input too.
\<close>

theorem fallback_collision:
  "translate (failing_translator ''de'') (fst (protect_placeholders ''__TOKEN_0__ {a}'')) ()
     = (Inl ''service unavailable'', ())
   \<and> fst (translate_value (JStr ''__TOKEN_0__ {a}'' :: unit json) (failing_translator ''de'')
        (fresh () :: (unit, unit) run_state)) = JStr ''{a} {a}''"
proof -
  have "fst (translate_value (JStr ''__TOKEN_0__ {a}'' :: unit json) (failing_translator ''de'')
        (fresh () :: (unit, unit) run_state)) = JStr ''{a} {a}''"
    by code_simp
  then show ?thesis by (simp add: failing_translator_def)
qed

text \<open>
  Claim C2, amended: for every string \<open>S\<close> in which the text \<open>TOKEN_\<close> is nowhere
  followed by a decimal digit, if the translation function raises an exception when
  \<open>translate_value\<close> processes \<open>S\<close> (so \<open>S\<close> is not in the cache), then
  \<open>translate_value\<close> returns normally, the value produced is \<open>S\<close> itself, the warning
  naming \<open>S\<close> and the target language is printed after the call, and \<open>S\<close> is stored
  in the cache for \<open>S\<close>.
\<close>

theorem fallback_keeps_string:
  "stem_free S \<Longrightarrow> cache st (S, target translator) = None \<Longrightarrow>
   translate translator (fst (protect_placeholders S)) (world st) = (Inl exc, w) \<Longrightarrow>
   translate_value (JStr S) translator st =
     (JStr S,
      st\<lparr>world := w,
         trace := trace st @
           [Call S (fst (protect_placeholders S)),
            Print (''[warn] Failed to translate '' @ [CHR 0x27] @ S @ [CHR 0x27] @ '' to ''
                   @ target translator @ '': '' @ exc @ ''. Keeping original.'')],
         cache := (cache st)((S, target translator) \<mapsto> S)\<rparr>)"
proof -
  assume free: "stem_free S" and miss: "cache st (S, target translator) = None"
    and raises: "translate translator (fst (protect_placeholders S)) (world st) = (Inl exc, w)"
  from translate_str_miss[OF miss raises] restore_protect[OF free] show ?thesis
    by (simp add: warn_message_def)
qed

theorem fallback_keeps_string_witness:
  "stem_free ''Bid {n}''
   \<and> fst (translate_value (JStr ''Bid {n}'' :: unit json) (failing_translator ''de'')
        (fresh () :: (unit, unit) run_state)) = JStr ''Bid {n}''
   \<and> trace (snd (translate_value (JStr ''Bid {n}'' :: unit json) (failing_translator ''de'')
        (fresh () :: (unit, unit) run_state)))
     = [Call ''Bid {n}'' ''Bid __TOKEN_0__'',
        Print (''[warn] Failed to translate '' @ [CHR 0x27] @ ''Bid {n}'' @ [CHR 0x27]
               @ '' to de: service unavailable. Keeping original.'')]"
proof -
  let ?tr = "failing_translator ''de''"
  let ?st = "fresh () :: (unit, unit) run_state"
  have free: "stem_free ''Bid {n}''" by code_simp
  have miss: "cache ?st (''Bid {n}'', target ?tr) = None" by (simp add: fresh_def)
  have raises: "translate ?tr (fst (protect_placeholders ''Bid {n}'')) (world ?st) = (Inl ''service unavailable'', ())"
    by (simp add: failing_translator_def)
  have p: "fst (protect_placeholders ''Bid {n}'') = ''Bid __TOKEN_0__''" by code_simp
  from fallback_keeps_string[OF free miss raises] free p show ?thesis
    by (simp add: fresh_def failing_translator_def)
qed

text \<open>
  Claim C10: \<open>translate_value\<close> terminates on every value, translator and state: every
  input lies in the accessible part of the relation between a call and the recursive
  calls it makes, which descend into the values of a dict and the elements of a list.
\<close>

theorem translate_value_terminates: "terminates_on V translator st"
proof -
  have "All (translate_value_translate_items_translate_values_dom
      :: 'a json \<times> 'b translator \<times> ('b, 'a) run_state
         + (string \<times> 'a json) list \<times> 'b translator \<times> ('b, 'a) run_state
         + 'a json list \<times> 'b translator \<times> ('b, 'a) run_state \<Rightarrow> bool)"
    by lexicographic_order
  then show ?thesis unfolding terminates_on_def by blast
qed

section \<open>Locale filtering\<close>

text \<open>
  Claim C5: when \<open>--langs\<close> lists only configured codes, the files written are files
  \<open><code>.json\<close> of requested codes in the output directory, each written at most once,
  and no others, whatever the file system does; when moreover the source file loads,
  the output directory can be made and the files can be written, the run ends normally
  and the files written are exactly those of the requested codes. When a requested
  code is not configured, the run ends with \<open>ValueError\<close>, whose message lists the
  unsupported codes, with no effect at all before it: nothing read, nothing translated,
  nothing written.
\<close>

theorem locale_filtering:
  "(langs a = Some codes \<and> codes \<noteq> []
      \<and> set codes \<subseteq> {''pl'', ''de'', ''fr'', ''it'', ''nl'', ''ar'', ''ja'', ''ko''}
    \<longrightarrow> distinct (written (snd (snd (main e a w))))
       \<and> set (written (snd (snd (main e a w))))
           \<subseteq> (\<lambda>code. (output_dir a, code @ ''.json'')) ` set codes)
   \<and> (langs a = Some codes \<and> codes \<noteq> []
      \<and> set codes \<subseteq> {''pl'', ''de'', ''fr'', ''it'', ''nl'', ''ar'', ''ja'', ''ko''}
      \<and> load_source e (source a) = Inr source_data \<and> make_dirs e (output_dir a) = None
      \<and> (\<forall>name content. write_file e (output_dir a) name content = None)
    \<longrightarrow> fst (main e a w) = None
       \<and> set (written (snd (snd (main e a w))))
           = (\<lambda>code. (output_dir a, code @ ''.json'')) ` set codes)
   \<and> (langs a = Some codes
      \<and> \<not> set codes \<subseteq> {''pl'', ''de'', ''fr'', ''it'', ''nl'', ''ar'', ''ja'', ''ko''}
    \<longrightarrow> main e a w =
         (Some (ValueError (''Unsupported locale codes: '' @ join '', ''
            (filter (\<lambda>code. code \<notin> {''pl'', ''de'', ''fr'', ''it'', ''nl'', ''ar'', ''ja'', ''ko''}) codes))),
          w, []))"
  by (rule locale_filtering_aux) (rule configured_codes)

theorem locale_filtering_witness:
  "written (snd (snd (main example_env
       \<lparr>source = ''en.default.json'', output_dir = ''locales'', langs = Some [''de'', ''fr'']\<rparr> ())))
     = [(''locales'', ''de.json''), (''locales'', ''fr.json'')]
   \<and> fst (main example_env
       \<lparr>source = ''en.default.json'', output_dir = ''locales'', langs = Some [''de'', ''fr'']\<rparr> ()) = None
   \<and> distinct (written (snd (snd (main example_env
       \<lparr>source = ''en.default.json'', output_dir = ''locales'', langs = Some [''de'', ''fr'']\<rparr> ()))))
   \<and> main example_env
       \<lparr>source = ''en.default.json'', output_dir = ''locales'', langs = Some [''de'', ''xx'', ''yy'']\<rparr> ()
     = (Some (ValueError ''Unsupported locale codes: xx, yy''), (), [])"
proof -
  let ?a = "\<lparr>source = ''en.default.json'', output_dir = ''locales'', langs = Some [''de'', ''fr'']\<rparr>"
  let ?b = "\<lparr>source = ''en.default.json'', output_dir = ''locales'', langs = Some [''de'', ''xx'', ''yy'']\<rparr>"
  let ?doc = "JDict [(''greeting'', JStr ''Hello {{name}}''), (''count'', JInt 3)] :: unit json"
  have h1: "langs ?a = Some [''de'', ''fr''] \<and> [''de'', ''fr''] \<noteq> []
      \<and> set [''de'', ''fr''] \<subseteq> {''pl'', ''de'', ''fr'', ''it'', ''nl'', ''ar'', ''ja'', ''ko''}"
    by simp
  have h2: "langs ?a = Some [''de'', ''fr''] \<and> [''de'', ''fr''] \<noteq> []
      \<and> set [''de'', ''fr''] \<subseteq> {''pl'', ''de'', ''fr'', ''it'', ''nl'', ''ar'', ''ja'', ''ko''}
      \<and> load_source example_env (source ?a) = Inr ?doc \<and> make_dirs example_env (output_dir ?a) = None
      \<and> (\<forall>name content. write_file example_env (output_dir ?a) name content = None)"
    by (simp add: example_env_def)
  have h3: "langs ?b = Some [''de'', ''xx'', ''yy'']
      \<and> \<not> set [''de'', ''xx'', ''yy''] \<subseteq> {''pl'', ''de'', ''fr'', ''it'', ''nl'', ''ar'', ''ja'', ''ko''}"
    by simp
  have files: "written (snd (snd (main example_env ?a ()))) = [(''locales'', ''de.json''), (''locales'', ''fr.json'')]"
    by code_simp
  note ta = locale_filtering[where a = ?a and codes = "[''de'', ''fr'']" and e = example_env
      and w = "()" and source_data = ?doc]
  note tb = locale_filtering[where a = ?b and codes = "[''de'', ''xx'', ''yy'']" and e = example_env
      and w = "()" and source_data = ?doc]
  from mp[OF conjunct1[OF ta] h1]
  have d: "distinct (written (snd (snd (main example_env ?a ()))))" by (rule conjunct1)
  from mp[OF conjunct1[OF conjunct2[OF ta]] h2]
  have n: "fst (main example_env ?a ()) = None" by (rule conjunct1)
  from mp[OF conjunct2[OF conjunct2[OF tb]] h3]
  have "main example_env ?b () =
         (Some (ValueError (''Unsupported locale codes: '' @ join '', ''
            (filter (\<lambda>code. code \<notin> {''pl'', ''de'', ''fr'', ''it'', ''nl'', ''ar'', ''ja'', ''ko''})
              [''de'', ''xx'', ''yy'']))), (), [])" .
  then have "main example_env ?b () = (Some (ValueError ''Unsupported locale codes: xx, yy''), (), [])"
    by simp
  with files n d show ?thesis by (intro conjI)
qed

end
